theory Spec2Isabelle
  imports Main "HOL-Library.Word" "HOL-Library.Signed_Division" "HOL-Library.AList"
    "HOL-Library.List_Lexorder"
begin

section \<open>Go values\<close>

text \<open>
  \<^verbatim>\<open>int64\<close> is a 64-bit word: \<open>+\<close>, \<open>-\<close> and \<open>*\<close> wrap around, \<open>sint\<close> reads the
  signed value. A Go string and the text of a counter file are modelled as the sequence
  of Unicode code points that UTF-8 decoding yields (\<^verbatim>\<open>rune\<close>s); \<open>runes\<close> turns an
  ASCII literal into that form.
\<close>

type_synonym int64 = "64 word"
type_synonym rune = nat
type_synonym gostring = "rune list"
type_synonym wallclock = int

definition runes :: "string \<Rightarrow> gostring" where
  "runes s = map of_char s"

text \<open>
  Go's \<^verbatim>\<open>/\<close> on \<^verbatim>\<open>int64\<close> truncates towards zero, and \<^verbatim>\<open>MinInt64 / -1\<close> wraps to
  \<^verbatim>\<open>MinInt64\<close>. A zero divisor is a run-time panic, which the caller of \<open>quo\<close> checks.
\<close>

definition quo :: "int64 \<Rightarrow> int64 \<Rightarrow> int64" where
  "quo a b = word_of_int (sint a sdiv sint b)"

text \<open>\<^verbatim>\<open>int64(time.Second)\<close>: a \<^verbatim>\<open>time.Duration\<close> counts nanoseconds.\<close>

definition Second :: int64 where
  "Second = 1000000000"

section \<open>The scanner of package fmt, for the format \<^verbatim>\<open>%d\<close>\<close>

datatype scan_error =
    UnexpectedNewline
  | EOF
  | ExpectedInteger
  | SyntaxError
  | RangeError

text \<open>The white space table of package fmt (the same set as \<^verbatim>\<open>unicode.IsSpace\<close>).\<close>

definition space :: "(rune \<times> rune) list" where
  "space = [(0x0009, 0x000d), (0x0020, 0x0020), (0x0085, 0x0085), (0x00a0, 0x00a0),
            (0x1680, 0x1680), (0x2000, 0x200a), (0x2028, 0x2029), (0x202f, 0x202f),
            (0x205f, 0x205f), (0x3000, 0x3000)]"

definition isSpace :: "rune \<Rightarrow> bool" where
  "isSpace r = list_ex (\<lambda>(lo, hi). lo \<le> r \<and> r \<le> hi) space"

definition isDigit :: "rune \<Rightarrow> bool" where
  "isDigit r = (0x30 \<le> r \<and> r \<le> 0x39)"

text \<open>
  \<^verbatim>\<open>decimalDigits = "0123456789"\<close>: the runes \<^verbatim>\<open>scanNumber\<close> accepts for the
  verb \<^verbatim>\<open>d\<close> (an underscore is a digit separator for the verb \<^verbatim>\<open>v\<close> only).
\<close>

definition decimalDigits :: "rune \<Rightarrow> bool" where
  "decimalDigits r = isDigit r"

definition sign :: "rune \<Rightarrow> bool" where
  "sign r = (r = 0x2b \<or> r = 0x2d)"

text \<open>
  \<^verbatim>\<open>SkipSpace\<close> with \<^verbatim>\<open>nlIsSpace = false\<close>, as \<^verbatim>\<open>Fscanf\<close> sets it: a newline in the
  input is an error, any other white space is dropped. (A carriage return is itself white
  space, so the look-ahead for \<^verbatim>\<open>\r\n\<close> changes nothing: the next round meets the
  newline.)
\<close>

fun SkipSpace :: "rune list \<Rightarrow> scan_error + rune list" where
  "SkipSpace [] = Inr []"
| "SkipSpace (r # rs) =
     (if r = 0x0a then Inl UnexpectedNewline
      else if \<not> isSpace r then Inr (r # rs)
      else SkipSpace rs)"

text \<open>\<^verbatim>\<open>s.accept(sign)\<close>: at most one sign goes to the token buffer.\<close>

fun accept_sign :: "rune list \<Rightarrow> rune list \<times> rune list" where
  "accept_sign [] = ([], [])"
| "accept_sign (r # rs) = (if sign r then ([r], rs) else ([], r # rs))"

text \<open>
  \<^verbatim>\<open>scanNumber\<close>: there must be input, its first rune must be one of
  \<open>decimalDigits\<close>, and then every further such rune is taken.
\<close>

definition scanNumber :: "rune list \<Rightarrow> scan_error + (rune list \<times> rune list)" where
  "scanNumber w =
     (case w of
        [] \<Rightarrow> Inl EOF
      | r # rs \<Rightarrow>
          if \<not> decimalDigits r then Inl ExpectedInteger
          else Inr (takeWhile decimalDigits w, dropWhile decimalDigits w))"

definition decimal :: "rune list \<Rightarrow> nat" where
  "decimal ds = foldl (\<lambda>a r. 10 * a + (r - 0x30)) 0 ds"

text \<open>
  \<^verbatim>\<open>strconv.ParseInt(tok, 10, 64)\<close>: an optional sign, then decimal digits only, and
  the value must fit \<^verbatim>\<open>int64\<close>.
\<close>

definition ParseInt :: "rune list \<Rightarrow> scan_error + int64" where
  "ParseInt tok =
     (let neg = (tok \<noteq> [] \<and> hd tok = 0x2d);
          ds = (if tok \<noteq> [] \<and> sign (hd tok) then tl tok else tok)
      in if ds = [] \<or> \<not> list_all isDigit ds then Inl SyntaxError
         else (let v = (if neg then - int (decimal ds) else int (decimal ds))
               in if v < - (2 ^ 63) \<or> 2 ^ 63 - 1 < v then Inl RangeError
                  else Inr (word_of_int v)))"

text \<open>
  \<^verbatim>\<open>scanInt\<close> for the verb \<^verbatim>\<open>d\<close>: skip space, fail at the end of the input, take the
  sign and the number, convert.
\<close>

definition scanInt :: "rune list \<Rightarrow> scan_error + (int64 \<times> rune list)" where
  "scanInt w =
     (case SkipSpace w of
        Inl e \<Rightarrow> Inl e
      | Inr w1 \<Rightarrow>
          if w1 = [] then Inl EOF
          else (let (sg, w2) = accept_sign w1
                in case scanNumber w2 of
                     Inl e \<Rightarrow> Inl e
                   | Inr (ds, w3) \<Rightarrow>
                       (case ParseInt (sg @ ds) of
                          Inl e \<Rightarrow> Inl e
                        | Inr v \<Rightarrow> Inr (v, w3))))"

text \<open>
  \<^verbatim>\<open>doScanf\<close> on the format \<^verbatim>\<open>%d\<close> with one operand: the verb is not \<^verbatim>\<open>%c\<close>, so space
  is skipped, then the operand is scanned.
\<close>

definition doScanf_d :: "rune list \<Rightarrow> scan_error + (int64 \<times> rune list)" where
  "doScanf_d w = (case SkipSpace w of Inl e \<Rightarrow> Inl e | Inr w1 \<Rightarrow> scanInt w1)"

text \<open>
  One call \<^verbatim>\<open>fmt.Fscanf(r, "%d", &x)\<close> on a reader that can unread a rune (the
  \<^verbatim>\<open>bufio.Reader\<close> of \<^verbatim>\<open>monitor\<close>): the result is the value and what is left in the
  reader. A call reads at most \<open>hugeWid\<close> runes (the scan state reports the end of the
  input once its rune count reaches that limit), so it sees the first \<open>hugeWid\<close> runes
  only.
\<close>

definition hugeWid :: nat where
  "hugeWid = 2 ^ 30"

definition Fscanf_d :: "rune list \<Rightarrow> scan_error + (int64 \<times> rune list)" where
  "Fscanf_d inp =
     (case doScanf_d (take hugeWid inp) of
        Inl e \<Rightarrow> Inl e
      | Inr (v, w) \<Rightarrow> Inr (v, w @ drop hugeWid inp))"

section \<open>readStat\<close>

type_synonym reading = "int64 list"

text \<open>
  The loop \<^verbatim>\<open>for i := range cur\<close> of \<open>readStat\<close>, with the number of elements still to
  fill: each round scans one integer into the next element and panics on an error.
\<close>

fun scan_fields :: "nat \<Rightarrow> rune list \<Rightarrow> scan_error + (reading \<times> rune list)" where
  "scan_fields 0 inp = Inr ([], inp)"
| "scan_fields (Suc n) inp =
     (case Fscanf_d inp of
        Inl e \<Rightarrow> Inl e
      | Inr (v, rest) \<Rightarrow>
          (case scan_fields n rest of
             Inl e \<Rightarrow> Inl e
           | Inr (vs, rest') \<Rightarrow> Inr (v # vs, rest')))"

text \<open>
  \<open>readStat\<close> returns the array of 11 counters and leaves the reader behind the last
  rune it consumed; \<open>Inl\<close> is the panic.
\<close>

definition readStat :: "rune list \<Rightarrow> scan_error + (reading \<times> rune list)" where
  "readStat r = scan_fields 11 r"

section \<open>The rate computation of monitor\<close>

record ioStats =
  Timestamp :: wallclock
  ReadsPerSec :: int64
  BytesReadPerSec :: int64
  ReadMillis :: int64
  WritesPerSec :: int64
  BytesWrittenPerSec :: int64
  WriteMillis :: int64
  InFlight :: int64
  WaitMillis :: int64

datatype panic =
    OpenFailed
  | SeekFailed
  | ScanFailed scan_error
  | NonPositiveTicker
  | DivideByZero

text \<open>
  The composite literal \<^verbatim>\<open>stats := ioStats{...}\<close> of the loop body, from the wall
  clock, the global \<^verbatim>\<open>sampleInterval\<close>, \<^verbatim>\<open>prev\<close> and \<^verbatim>\<open>cur\<close>. Every division has
  the same divisor, so the integer division panics for all fields or for none.
\<close>

definition stats :: "wallclock \<Rightarrow> int64 \<Rightarrow> reading \<Rightarrow> reading \<Rightarrow> panic + ioStats" where
  "stats now interval prev cur =
     (if interval = 0 then Inl DivideByZero
      else Inr \<lparr>
        Timestamp = now,
        ReadsPerSec = quo ((cur ! 0 - prev ! 0) * Second) interval,
        BytesReadPerSec = quo ((cur ! 2 - prev ! 2) * 512 * Second) interval,
        ReadMillis = quo ((cur ! 3 - prev ! 3) * Second) interval,
        WritesPerSec = quo ((cur ! 4 - prev ! 4) * Second) interval,
        BytesWrittenPerSec = quo ((cur ! 6 - prev ! 6) * 512 * Second) interval,
        WriteMillis = quo ((cur ! 7 - prev ! 7) * Second) interval,
        InFlight = cur ! 8,
        WaitMillis = quo ((cur ! 10 - prev ! 10) * Second) interval
      \<rparr>)"

section \<open>monitor\<close>

text \<open>
  A file access of \<open>monitor\<close> is given by what the environment answers: \<open>None\<close> when
  \<^verbatim>\<open>os.Open\<close> (or, in the loop, \<^verbatim>\<open>f.Seek\<close>) fails, and otherwise the text of the
  counter file read from its start.

  Before the loop: open the file, read the baseline \<^verbatim>\<open>prev\<close>, create the ticker
  (\<^verbatim>\<open>time.NewTicker\<close> panics on a non-positive duration). Nothing is stored.
\<close>

definition monitor_start :: "int64 \<Rightarrow> rune list option \<Rightarrow> panic + reading" where
  "monitor_start interval file =
     (case file of
        None \<Rightarrow> Inl OpenFailed
      | Some text \<Rightarrow>
          (case readStat text of
             Inl e \<Rightarrow> Inl (ScanFailed e)
           | Inr (prev, _) \<Rightarrow>
               if sint interval \<le> 0 then Inl NonPositiveTicker else Inr prev))"

text \<open>
  One round of the loop, after the tick: rewind, read \<^verbatim>\<open>cur\<close>, print the 11 deltas,
  compute \<^verbatim>\<open>stats\<close>. The result is the printed deltas, the value handed to
  \<^verbatim>\<open>lastSample.Store\<close>, and the new \<^verbatim>\<open>prev\<close>.
\<close>

definition monitor_tick ::
  "int64 \<Rightarrow> wallclock \<Rightarrow> rune list option \<Rightarrow> reading \<Rightarrow> panic + (int64 list \<times> ioStats \<times> reading)" where
  "monitor_tick interval now file prev =
     (case file of
        None \<Rightarrow> Inl SeekFailed
      | Some text \<Rightarrow>
          (case readStat text of
             Inl e \<Rightarrow> Inl (ScanFailed e)
           | Inr (cur, _) \<Rightarrow>
               (case stats now interval prev cur of
                  Inl p \<Rightarrow> Inl p
                | Inr s \<Rightarrow> Inr (map2 (\<lambda>c p. c - p) cur prev, s, cur))))"

section \<open>main\<close>

record flags =
  sampleInterval :: int64
  httpPort :: gostring
  devices :: gostring

definition TrimSpace :: "gostring \<Rightarrow> gostring" where
  "TrimSpace s = rev (dropWhile isSpace (rev (dropWhile isSpace s)))"

text \<open>\<^verbatim>\<open>strings.Split(s, ",")\<close>\<close>

fun Split :: "gostring \<Rightarrow> gostring list" where
  "Split [] = [[]]"
| "Split (r # rs) =
     (if r = 0x2c then [] # Split rs
      else (case Split rs of [] \<Rightarrow> [[r]] | x # xs \<Rightarrow> (r # x) # xs))"

text \<open>The statements of \<open>main\<close> between \<^verbatim>\<open>flag.Parse()\<close> and the loop over the devices.\<close>

definition main_flags :: "flags \<Rightarrow> flags" where
  "main_flags fl =
     (let port = TrimSpace (httpPort fl);
          devs = TrimSpace (devices fl)
      in \<lparr> sampleInterval = (if sint (sampleInterval fl) \<le> 0 then Second else sampleInterval fl),
           httpPort = (if port \<noteq> [] \<and> hd port = 0x3a then port else 0x3a # port),
           devices = (if length devs = 0 then runes ''sda'' else devs) \<rparr>)"

text \<open>
  The shared state. An \<^verbatim>\<open>atomic.Value\<close> is a cell of the list \<open>cells\<close>, named by its
  index; \<open>None\<close> is the cell nothing was stored in, for which \<^verbatim>\<open>Load\<close> returns
  \<^verbatim>\<open>nil\<close>. The map \<^verbatim>\<open>lastSamples\<close> is a list of pairs with distinct keys. A goroutine
  running \<open>monitor\<close> has its two arguments and is either before its baseline read or in
  the loop with its \<^verbatim>\<open>prev\<close>.
\<close>

datatype sampler = Starting | Running reading

record goroutine =
  statFile :: gostring
  lastSample :: nat
  state :: sampler

record system =
  lastSamples :: "(gostring \<times> nat) list"
  cells :: "ioStats option list"
  goroutines :: "goroutine list"
  stdout :: "int64 list list"

definition Load :: "ioStats option list \<Rightarrow> nat \<Rightarrow> ioStats option" where
  "Load cs a = (if a < length cs then cs ! a else None)"

text \<open>The loop of \<open>main\<close> over the device names: a new cell, the map entry, the goroutine.\<close>

fun spawn :: "gostring list \<Rightarrow> system \<Rightarrow> system" where
  "spawn [] st = st"
| "spawn (dev # devs) st =
     spawn devs
       \<lparr> lastSamples = AList.update dev (length (cells st)) (lastSamples st),
         cells = cells st @ [None],
         goroutines = goroutines st @
           [\<lparr> statFile = runes ''/sys/block/'' @ dev @ runes ''/stat'',
              lastSample = length (cells st),
              state = Starting \<rparr>],
         stdout = stdout st \<rparr>"

definition main :: "flags \<Rightarrow> system" where
  "main fl =
     spawn (Split (devices (main_flags fl)))
       \<lparr> lastSamples = [], cells = [], goroutines = [], stdout = [] \<rparr>"

section \<open>The running process\<close>

text \<open>
  An event is one file access of one goroutine: its index, the wall clock, and the
  answer of the environment. The first event of a goroutine is its baseline read, each
  later one a round of its loop; the store into the cell is one atomic step, so a handler
  sees the state between two events. A panic ends the process. An event with an index
  that no goroutine has changes nothing.
\<close>

type_synonym event = "nat \<times> wallclock \<times> rune list option"

definition step :: "int64 \<Rightarrow> system \<Rightarrow> event \<Rightarrow> panic + system" where
  "step interval st ev =
     (case ev of (g, now, file) \<Rightarrow>
        if length (goroutines st) \<le> g then Inr st
        else (let gr = goroutines st ! g in
          case state gr of
            Starting \<Rightarrow>
              (case monitor_start interval file of
                 Inl p \<Rightarrow> Inl p
               | Inr prev \<Rightarrow>
                   Inr (st\<lparr>goroutines := (goroutines st)[g := gr\<lparr>state := Running prev\<rparr>]\<rparr>))
          | Running prev \<Rightarrow>
              (case monitor_tick interval now file prev of
                 Inl p \<Rightarrow> Inl p
               | Inr (out, s, cur) \<Rightarrow>
                   Inr (st\<lparr>stdout := stdout st @ [out],
                           cells := (cells st)[lastSample gr := Some s],
                           goroutines := (goroutines st)[g := gr\<lparr>state := Running cur\<rparr>]\<rparr>))))"

fun run :: "int64 \<Rightarrow> system \<Rightarrow> event list \<Rightarrow> panic + system" where
  "run interval st [] = Inr st"
| "run interval st (ev # evs) =
     (case step interval st ev of Inl p \<Rightarrow> Inl p | Inr st' \<Rightarrow> run interval st' evs)"

text \<open>The number of reads goroutine \<open>g\<close> has made in a run.\<close>

definition reads :: "nat \<Rightarrow> event list \<Rightarrow> nat" where
  "reads g evs = length (filter (\<lambda>ev. fst ev = g) evs)"

text \<open>
  The process: \<open>main\<close> starts the goroutines, which all read the global
  \<^verbatim>\<open>sampleInterval\<close> as \<open>main\<close> left it. The handler is registered after the
  last goroutine is started, so every state it sees is reached from \<open>main fl\<close> by events.
\<close>

definition process :: "flags \<Rightarrow> event list \<Rightarrow> panic + system" where
  "process fl evs = run (sampleInterval (main_flags fl)) (main fl) evs"

section \<open>statsHandlerAsJSON\<close>

record response =
  status :: nat
  header :: "(string \<times> string) list"
  body :: string

text \<open>The map \<^verbatim>\<open>m\<close> the handler builds: the devices whose cell holds a value.\<close>

definition handler_map :: "system \<Rightarrow> (gostring \<times> ioStats) list" where
  "handler_map st =
     List.map_filter
       (\<lambda>(name, a). case Load (cells st) a of None \<Rightarrow> None | Some s \<Rightarrow> Some (name, s))
       (lastSamples st)"

fun join :: "string \<Rightarrow> string list \<Rightarrow> string" where
  "join sep [] = []"
| "join sep [x] = x"
| "join sep (x # y # ys) = x @ sep @ join sep (y # ys)"

text \<open>
  \<^verbatim>\<open>json.Marshal\<close> of a map with string keys: an object with the keys in sorted order.
  The encodings of a key and of an \<^verbatim>\<open>ioStats\<close> value are parameters.
\<close>

definition json_Marshal ::
  "(gostring \<Rightarrow> string) \<Rightarrow> (ioStats \<Rightarrow> string) \<Rightarrow> (gostring \<times> ioStats) list \<Rightarrow> string" where
  "json_Marshal encKey encVal m =
     ''{'' @ join '','' (map (\<lambda>(k, v). encKey k @ '':'' @ encVal v) (sort_key fst m)) @ ''}''"

text \<open>
  The handler adds one header and writes the body; the first \<^verbatim>\<open>Write\<close> sends the
  status 200.
\<close>

definition statsHandlerAsJSON ::
  "(gostring \<Rightarrow> string) \<Rightarrow> (ioStats \<Rightarrow> string) \<Rightarrow> system \<Rightarrow> response" where
  "statsHandlerAsJSON encKey encVal st =
     \<lparr> status = 200,
       header = [(''Content-Type'', ''application/json'')],
       body = json_Marshal encKey encVal (handler_map st) \<rparr>"

section \<open>Counter files as the specification describes them\<close>

text \<open>
  A field of a counter file is white space followed by a decimal literal: an optional
  sign and at least one digit. \<open>blank\<close> is white space other than the newline.
\<close>

type_synonym field = "rune list \<times> rune list"

definition blank :: "rune \<Rightarrow> bool" where
  "blank r = (isSpace r \<and> r \<noteq> 0x0a)"

definition int_literal :: "rune list \<Rightarrow> bool" where
  "int_literal lit =
     (let ds = (if lit \<noteq> [] \<and> sign (hd lit) then tl lit else lit)
      in ds \<noteq> [] \<and> list_all isDigit ds)"

definition literal_value :: "rune list \<Rightarrow> int" where
  "literal_value lit =
     (if lit \<noteq> [] \<and> hd lit = 0x2d then - int (decimal (tl lit))
      else if lit \<noteq> [] \<and> hd lit = 0x2b then int (decimal (tl lit))
      else int (decimal lit))"

definition field_ok :: "field \<Rightarrow> bool" where
  "field_ok f =
     (list_all blank (fst f) \<and> int_literal (snd f) \<and>
      - (2 ^ 63) \<le> literal_value (snd f) \<and> literal_value (snd f) < 2 ^ 63)"

definition field_text :: "field \<Rightarrow> rune list" where
  "field_text f = fst f @ snd f"

definition field_value :: "field \<Rightarrow> int64" where
  "field_value f = word_of_int (literal_value (snd f))"

definition fields_text :: "field list \<Rightarrow> rune list" where
  "fields_text fs = concat (map field_text fs)"

text \<open>
  A literal ends where the input ends or a rune follows that the scanner does not take
  into a number. \<open>fields_ended fs rest\<close>: every literal of \<open>fs\<close> ends before the text that
  follows it, and every field is shorter than one call of the scanner reads.
\<close>

definition ended :: "rune list \<Rightarrow> bool" where
  "ended xs = (xs = [] \<or> \<not> isDigit (hd xs))"

fun fields_ended :: "field list \<Rightarrow> rune list \<Rightarrow> bool" where
  "fields_ended [] rest = True"
| "fields_ended (f # fs) rest =
     (length (field_text f) < hugeWid \<and> ended (fields_text fs @ rest) \<and> fields_ended fs rest)"




section \<open>The Snapshot a run has published\<close>

text \<open>
  What the latest round of goroutine \<open>g\<close>'s loop computed in a run: \<^verbatim>\<open>stats\<close> of the
  readings of its last two reads, at the wall clock of the last one; nothing before its
  second read.
\<close>

definition last_two :: "'a list \<Rightarrow> ('a \<times> 'a) option" where
  "last_two xs = (if length xs < 2 then None else Some (last (butlast xs), last xs))"

definition snapshot_of :: "int64 \<Rightarrow> event \<Rightarrow> event \<Rightarrow> ioStats option" where
  "snapshot_of interval e1 e2 =
     (case (snd (snd e1), snd (snd e2)) of
        (Some t1, Some t2) \<Rightarrow>
          (case (readStat t1, readStat t2) of
             (Inr (prev, _), Inr (cur, _)) \<Rightarrow>
               (case stats (fst (snd e2)) interval prev cur of
                  Inr s \<Rightarrow> Some s
                | Inl _ \<Rightarrow> None)
           | _ \<Rightarrow> None)
      | _ \<Rightarrow> None)"

definition published :: "int64 \<Rightarrow> nat \<Rightarrow> event list \<Rightarrow> ioStats option" where
  "published interval g evs =
     (case last_two (filter (\<lambda>ev. fst ev = g) evs) of
        None \<Rightarrow> None
      | Some (e1, e2) \<Rightarrow> snapshot_of interval e1 e2)"

section \<open>Invariants of the running process\<close>

text \<open>
  Every goroutine owns the cell of its own index, there are as many cells as goroutines,
  the keys of \<^verbatim>\<open>lastSamples\<close> are distinct and each names an allocated cell.
\<close>

definition wf :: "system \<Rightarrow> bool" where
  "wf st \<longleftrightarrow>
     length (cells st) = length (goroutines st) \<and>
     (\<forall>g < length (goroutines st). lastSample (goroutines st ! g) = g) \<and>
     distinct (map fst (lastSamples st)) \<and>
     (\<forall>e \<in> set (lastSamples st). snd e < length (cells st))"

text \<open>
  Where goroutine \<open>g\<close> and its cell stand after \<open>k\<close> reads: before the baseline read
  exactly when \<open>k = 0\<close>, and the cell empty exactly when \<open>k < 2\<close>.
\<close>

definition phase :: "system \<Rightarrow> nat \<Rightarrow> nat \<Rightarrow> bool" where
  "phase st g k \<longleftrightarrow>
     (state (goroutines st ! g) = Starting \<longleftrightarrow> k = 0) \<and>
     (cells st ! g = None \<longleftrightarrow> k < 2)"

text \<open>
  Goroutine \<open>g\<close> and its cell after the reads \<open>es\<close> of \<open>g\<close>: its \<^verbatim>\<open>prev\<close> is the reading
  of its last read, and its cell holds what its last two reads give.
\<close>

definition track :: "int64 \<Rightarrow> system \<Rightarrow> nat \<Rightarrow> event list \<Rightarrow> bool" where
  "track interval st g es \<longleftrightarrow>
     (es = [] \<longrightarrow> state (goroutines st ! g) = Starting) \<and>
     (es \<noteq> [] \<longrightarrow>
        (\<exists>t prev rest. snd (snd (last es)) = Some t \<and> readStat t = Inr (prev, rest) \<and>
           state (goroutines st ! g) = Running prev)) \<and>
     cells st ! g =
       (case last_two es of None \<Rightarrow> None | Some (e1, e2) \<Rightarrow> snapshot_of interval e1 e2)"

section \<open>Sample data\<close>

text \<open>The two readings of the specification's scenario.\<close>

definition previous :: reading where
  "previous = [100, 0, 2000, 50, 40, 0, 800, 20, 3, 70, 90]"

definition current :: reading where
  "current = [110, 0, 2200, 55, 44, 0, 880, 22, 5, 77, 99]"

text \<open>The same readings with other merge counts and other io-ticks.\<close>

definition previous' :: reading where
  "previous' = [100, 7, 2000, 50, 40, 8, 800, 20, 3, 9, 90]"

definition current' :: reading where
  "current' = [110, 1, 2200, 55, 44, 2, 880, 22, 5, 3, 99]"

text \<open>An idle baseline, and a reading 18014399 sectors (about 9.2 GB) of reads later.\<close>

definition idle :: reading where
  "idle = [0, 0, 0, 0, 0, 0, 0, 0, 0, 0, 0]"

definition burst :: reading where
  "burst = [0, 0, 18014399, 0, 0, 0, 0, 0, 0, 0, 0]"

text \<open>The scenario's value of \<^verbatim>\<open>stats\<close>, at wall clock \<open>t\<close>.\<close>

definition scenario :: "wallclock \<Rightarrow> ioStats" where
  "scenario t =
     \<lparr> Timestamp = t, ReadsPerSec = 10, BytesReadPerSec = 102400, ReadMillis = 5,
       WritesPerSec = 4, BytesWrittenPerSec = 40960, WriteMillis = 2, InFlight = 5,
       WaitMillis = 9 \<rparr>"

text \<open>Counter files: the two readings as text, and the fields of the second.\<close>

definition previous_text :: "rune list" where
  "previous_text = runes ''     100        0     2000       50       40        0      800       20        3       70       90'' @ [0x0a]"

definition current_text :: "rune list" where
  "current_text = runes ''110 0 2200 55 44 0 880 22 5 77 99 0 0 0 0'' @ [0x0a]"

definition current_fields :: "field list" where
  "current_fields =
     [([], runes ''110''), (runes '' '', runes ''0''), (runes '' '', runes ''2200''),
      (runes '' '', runes ''55''), (runes '' '', runes ''44''), (runes '' '', runes ''0''),
      (runes '' '', runes ''880''), (runes '' '', runes ''22''), (runes '' '', runes ''5''),
      (runes '' '', runes ''77''), (runes '' '', runes ''99'')]"


definition lines_text :: "rune list" where
  "lines_text = runes ''1'' @ [0x0a] @ runes ''2 3 4 5 6 7 8 9 10 11''"

definition default_flags :: flags where
  "default_flags = \<lparr> sampleInterval = Second, httpPort = runes '':8080'', devices = runes ''sda'' \<rparr>"

text \<open>
  Two runs of the process with the default flags: the baseline read of the one goroutine,
  and the baseline read followed by one round of the loop; and the states they end in.
\<close>

definition baseline_run :: "event list" where
  "baseline_run = [(0, 10, Some previous_text)]"

definition two_reads :: "event list" where
  "two_reads = [(0, 10, Some previous_text), (0, 20, Some current_text)]"

definition after_baseline :: system where
  "after_baseline =
     \<lparr> lastSamples = [(runes ''sda'', 0)], cells = [None],
       goroutines =
         [\<lparr> statFile = runes ''/sys/block/sda/stat'', lastSample = 0,
            state = Running previous \<rparr>],
       stdout = [] \<rparr>"

definition after_two_reads :: system where
  "after_two_reads =
     \<lparr> lastSamples = [(runes ''sda'', 0)], cells = [Some (scenario 20)],
       goroutines =
         [\<lparr> statFile = runes ''/sys/block/sda/stat'', lastSample = 0,
            state = Running current \<rparr>],
       stdout = [[10, 0, 200, 5, 4, 0, 80, 2, 2, 7, 9]] \<rparr>"

text \<open>A third reading, its text, and the run and the state with a second round of the loop.\<close>

definition third :: reading where
  "third = [120, 0, 2400, 60, 48, 0, 960, 24, 7, 84, 108]"

definition third_text :: "rune list" where
  "third_text = runes ''120 0 2400 60 48 0 960 24 7 84 108'' @ [0x0a]"

definition three_reads :: "event list" where
  "three_reads =
     [(0, 10, Some previous_text), (0, 20, Some current_text), (0, 30, Some third_text)]"

definition after_three_reads :: system where
  "after_three_reads =
     \<lparr> lastSamples = [(runes ''sda'', 0)], cells = [Some ((scenario 30)\<lparr>InFlight := 7\<rparr>)],
       goroutines =
         [\<lparr> statFile = runes ''/sys/block/sda/stat'', lastSample = 0,
            state = Running third \<rparr>],
       stdout = [[10, 0, 200, 5, 4, 0, 80, 2, 2, 7, 9], [10, 0, 200, 5, 4, 0, 80, 2, 2, 7, 9]] \<rparr>"




section \<open>Signed division\<close>

lemma sdiv_pos_divisor:
  fixes a b :: int
  assumes "0 < b"
  shows "a sdiv b = (if 0 \<le> a then a div b else - ((- a) div b))"
  using assms by (simp add: signed_divide_int_def sgn_if)

lemma sdiv_abs_le:
  fixes a b :: int
  assumes "0 < b"
  shows "\<bar>a sdiv b\<bar> \<le> \<bar>a\<bar>"
proof (cases "0 \<le> a")
  case True
  then have "a div b \<le> a" using assms zdiv_mono2 [of a 1 b] by simp
  moreover have "0 \<le> a div b" using True assms by (simp add: pos_imp_zdiv_nonneg_iff)
  ultimately show ?thesis using True assms by (simp add: sdiv_pos_divisor)
next
  case False
  then have "(- a) div b \<le> - a" using assms zdiv_mono2 [of "- a" 1 b] by simp
  moreover have "0 \<le> (- a) div b" using False assms by (simp add: pos_imp_zdiv_nonneg_iff)
  ultimately show ?thesis using False assms by (simp add: sdiv_pos_divisor)
qed

lemma sdiv_twice:
  fixes a b :: int
  assumes "0 < b"
  shows "a sdiv (2 * b) = (a sdiv b) sdiv 2"
proof (cases "0 \<le> a")
  case True
  then have "0 \<le> a div b" using assms by (simp add: pos_imp_zdiv_nonneg_iff)
  then show ?thesis using True assms
    by (simp add: sdiv_pos_divisor zdiv_zmult2_eq mult.commute)
next
  case False
  have nn: "0 \<le> (- a) div b" using False assms by (simp add: pos_imp_zdiv_nonneg_iff)
  have e: "(- a) div (2 * b) = (- a) div b div 2"
    using assms by (simp add: zdiv_zmult2_eq mult.commute)
  show ?thesis
  proof (cases "(- a) div b = 0")
    case True
    then show ?thesis using False assms e by (simp add: sdiv_pos_divisor)
  next
    case nz: False
    then have "\<not> 0 \<le> - ((- a) div b)" using nn by simp
    then show ?thesis using False assms e by (simp add: sdiv_pos_divisor)
  qed
qed

lemma sint_quo:
  assumes "0 < sint b"
  shows "sint (quo a b) = sint a sdiv sint b"
proof -
  have "\<bar>sint a sdiv sint b\<bar> \<le> \<bar>sint a\<bar>" using assms by (rule sdiv_abs_le)
  moreover have "- (2 ^ 63) \<le> sint a" "sint a < 2 ^ 63"
    using sint_ge [of a] sint_lt [of a] by simp_all
  moreover have "sint a sdiv sint b \<noteq> 2 ^ 63"
  proof
    assume e: "sint a sdiv sint b = 2 ^ 63"
    then have "0 \<le> sint a"
      using assms by (auto simp: sdiv_pos_divisor split: if_splits)
         (smt (verit) pos_imp_zdiv_nonneg_iff)
    then show False using e \<open>\<bar>sint a sdiv sint b\<bar> \<le> \<bar>sint a\<bar>\<close> \<open>sint a < 2 ^ 63\<close> by simp
  qed
  ultimately have "- (2 ^ 63) \<le> sint a sdiv sint b" "sint a sdiv sint b < 2 ^ 63"
    by linarith+
  then show ?thesis
    by (simp add: quo_def sint_sbintrunc' signed_take_bit_int_eq_self)
qed

lemma sint_double:
  fixes S :: int64
  assumes "0 < sint S" "sint S < 2 ^ 62"
  shows "sint (2 * S) = 2 * sint S"
  using assms by (simp add: sint_word_mult signed_take_bit_int_eq_self)

lemma quo_double:
  assumes "0 < sint S" "sint S < 2 ^ 62"
  shows "quo x (2 * S) = quo (quo x S) 2"
proof -
  have "sint x sdiv sint (2 * S) = sint (quo x S) sdiv sint (2 :: int64)"
    using assms by (simp add: sint_double sint_quo sdiv_twice)
  then show ?thesis by (simp add: quo_def)
qed

lemma sint_scaled_delta:
  fixes c p k :: int64
  assumes "sint p \<le> sint c" "(sint c - sint p) * sint k < 2 ^ 63" "0 < sint k"
  shows "sint ((c - p) * k) = (sint c - sint p) * sint k"
proof -
  let ?d = "sint c - sint p"
  have d0: "0 \<le> ?d" using assms by simp
  have "?d * 1 \<le> ?d * sint k" using d0 assms(3) by (intro mult_left_mono) simp_all
  then have d1: "?d < 2 ^ 63" using assms(2) by simp
  have "sint (c - p) = ?d"
    using d0 d1 by (simp add: sint_word_diff signed_take_bit_int_eq_self)
  moreover have "0 \<le> ?d * sint k" using d0 assms(3) by simp
  ultimately show ?thesis
    using assms(2) by (simp add: sint_word_mult signed_take_bit_int_eq_self)
qed

lemma quo_nonneg:
  assumes "0 \<le> sint a" "0 < sint b"
  shows "0 \<le> sint (quo a b)"
  using assms by (simp add: sint_quo sdiv_pos_divisor pos_imp_zdiv_nonneg_iff)

lemma sint_Second: "sint Second = 1000000000"
  by (simp add: Second_def)

lemma sint_512_Second: "sint (512 * Second) = 512000000000"
  by (simp add: Second_def)

lemma rate_nonneg:
  assumes "sint p \<le> sint c" "(sint c - sint p) * 1000000000 < 2 ^ 63" "0 < sint S"
  shows "0 \<le> sint (quo ((c - p) * Second) S)"
proof -
  have "sint ((c - p) * Second) = (sint c - sint p) * sint Second"
    using assms by (intro sint_scaled_delta) (simp_all add: sint_Second)
  then have "0 \<le> sint ((c - p) * Second)" using assms(1) by (simp add: sint_Second)
  then show ?thesis using assms(3) by (rule quo_nonneg)
qed

lemma byte_rate_nonneg:
  assumes "sint p \<le> sint c" "(sint c - sint p) * 512000000000 < 2 ^ 63" "0 < sint S"
  shows "0 \<le> sint (quo ((c - p) * 512 * Second) S)"
proof -
  have "sint ((c - p) * (512 * Second)) = (sint c - sint p) * sint (512 * Second)"
    using assms by (intro sint_scaled_delta) (simp_all add: sint_512_Second)
  then have "0 \<le> sint ((c - p) * (512 * Second))" using assms(1) by (simp add: sint_512_Second)
  then have "0 \<le> sint ((c - p) * 512 * Second)" by (simp only: mult.assoc)
  then show ?thesis using assms(3) by (rule quo_nonneg)
qed

lemma sint_quo_two: "sint (quo a 2) = sint a sdiv 2"
  using sint_quo [of 2 a] by simp

section \<open>The rate computation\<close>

lemma stats_scenario_value: "stats t Second previous current = Inr (scenario t)"
  by (simp add: stats_def Second_def quo_def previous_def current_def scenario_def)

text \<open>
  Claim C1. With \<open>previous = [100,0,2000,50,40,0,800,20,3,70,90]\<close>,
  \<open>current = [110,0,2200,55,44,0,880,22,5,77,99]\<close> and an interval of one second, the
  computed value has reads/sec 10, bytes-read/sec 102400, read-wait-ms 5, writes/sec 4,
  bytes-written/sec 40960, write-wait-ms 2, in-flight 5 and queue-wait-ms 9.
\<close>

theorem stats_scenario:
  "stats now Second previous current =
     Inr \<lparr> Timestamp = now, ReadsPerSec = 10, BytesReadPerSec = 102400, ReadMillis = 5,
           WritesPerSec = 4, BytesWrittenPerSec = 40960, WriteMillis = 2, InFlight = 5,
           WaitMillis = 9 \<rparr>"
  by (simp add: stats_def Second_def quo_def previous_def current_def)

theorem stats_scenario_witness:
  "stats 1700000000 Second previous current =
     Inr \<lparr> Timestamp = 1700000000, ReadsPerSec = 10, BytesReadPerSec = 102400,
           ReadMillis = 5, WritesPerSec = 4, BytesWrittenPerSec = 40960, WriteMillis = 2,
           InFlight = 5, WaitMillis = 9 \<rparr>"
  using stats_scenario [of 1700000000] by simp

text \<open>
  Claim C2, as stated: at twice the interval every rate field is exactly half. It fails
  on the scenario of C1: the read wait is 5 at one second and 2 at two seconds, because
  the fields are integers and the division truncates.
\<close>

theorem stats_double_interval_counterexample:
  "stats 0 Second previous current =
     Inr \<lparr> Timestamp = 0, ReadsPerSec = 10, BytesReadPerSec = 102400, ReadMillis = 5,
           WritesPerSec = 4, BytesWrittenPerSec = 40960, WriteMillis = 2, InFlight = 5,
           WaitMillis = 9 \<rparr> \<and>
   stats 0 (2 * Second) previous current =
     Inr \<lparr> Timestamp = 0, ReadsPerSec = 5, BytesReadPerSec = 51200, ReadMillis = 2,
           WritesPerSec = 2, BytesWrittenPerSec = 20480, WriteMillis = 1, InFlight = 5,
           WaitMillis = 4 \<rparr> \<and>
   2 * sint (2 :: int64) \<noteq> sint (5 :: int64)"
  by (simp add: stats_def Second_def quo_def previous_def current_def)

text \<open>
  Claim C2, amended. For an interval \<open>S\<close> with \<open>0 < S\<close> and \<open>2 * S\<close> still an
  \<^verbatim>\<open>int64\<close> (\<open>S < 2^62\<close> nanoseconds), and the same two readings, every rate field at
  the interval \<open>2 * S\<close> is the field at \<open>S\<close> divided by 2 with Go's integer division
  (truncated towards zero); the in-flight gauge is unchanged.
\<close>

theorem stats_double_interval:
  assumes "0 < sint S" and "sint S < 2 ^ 62"
    and "stats now S prev cur = Inr s" and "stats now' (2 * S) prev cur = Inr s'"
  shows "sint (ReadsPerSec s') = sint (ReadsPerSec s) sdiv 2 \<and>
         sint (BytesReadPerSec s') = sint (BytesReadPerSec s) sdiv 2 \<and>
         sint (ReadMillis s') = sint (ReadMillis s) sdiv 2 \<and>
         sint (WritesPerSec s') = sint (WritesPerSec s) sdiv 2 \<and>
         sint (BytesWrittenPerSec s') = sint (BytesWrittenPerSec s) sdiv 2 \<and>
         sint (WriteMillis s') = sint (WriteMillis s) sdiv 2 \<and>
         sint (WaitMillis s') = sint (WaitMillis s) sdiv 2 \<and>
         InFlight s' = InFlight s"
proof -
  have q: "\<And>x. sint (quo x (2 * S)) = sint (quo x S) sdiv 2"
    using quo_double [OF assms(1,2)] by (simp add: sint_quo_two)
  have "S \<noteq> 0" using assms(1) by auto
  moreover have "2 * S \<noteq> 0" using sint_double [OF assms(1,2)] assms(1) by auto
  ultimately have
    "s = \<lparr> Timestamp = now,
           ReadsPerSec = quo ((cur ! 0 - prev ! 0) * Second) S,
           BytesReadPerSec = quo ((cur ! 2 - prev ! 2) * 512 * Second) S,
           ReadMillis = quo ((cur ! 3 - prev ! 3) * Second) S,
           WritesPerSec = quo ((cur ! 4 - prev ! 4) * Second) S,
           BytesWrittenPerSec = quo ((cur ! 6 - prev ! 6) * 512 * Second) S,
           WriteMillis = quo ((cur ! 7 - prev ! 7) * Second) S,
           InFlight = cur ! 8,
           WaitMillis = quo ((cur ! 10 - prev ! 10) * Second) S \<rparr>"
    "s' = \<lparr> Timestamp = now',
           ReadsPerSec = quo ((cur ! 0 - prev ! 0) * Second) (2 * S),
           BytesReadPerSec = quo ((cur ! 2 - prev ! 2) * 512 * Second) (2 * S),
           ReadMillis = quo ((cur ! 3 - prev ! 3) * Second) (2 * S),
           WritesPerSec = quo ((cur ! 4 - prev ! 4) * Second) (2 * S),
           BytesWrittenPerSec = quo ((cur ! 6 - prev ! 6) * 512 * Second) (2 * S),
           WriteMillis = quo ((cur ! 7 - prev ! 7) * Second) (2 * S),
           InFlight = cur ! 8,
           WaitMillis = quo ((cur ! 10 - prev ! 10) * Second) (2 * S) \<rparr>"
    using assms(3,4) by (simp_all add: stats_def)
  then show ?thesis by (simp add: q)
qed

theorem stats_double_interval_witness:
  "0 < sint Second \<and> sint Second < 2 ^ 62 \<and>
   stats 0 Second previous current = Inr (scenario 0) \<and>
   stats 1 (2 * Second) previous current =
     Inr \<lparr> Timestamp = 1, ReadsPerSec = 5, BytesReadPerSec = 51200, ReadMillis = 2,
           WritesPerSec = 2, BytesWrittenPerSec = 20480, WriteMillis = 1, InFlight = 5,
           WaitMillis = 4 \<rparr> \<and>
   sint (2 :: int64) = sint (ReadMillis (scenario 0)) sdiv 2 \<and>
   sint (5 :: int64) = sint (ReadsPerSec (scenario 0)) sdiv 2"
proof -
  let ?s' = "\<lparr> Timestamp = 1, ReadsPerSec = 5, BytesReadPerSec = 51200, ReadMillis = 2,
           WritesPerSec = 2, BytesWrittenPerSec = 20480, WriteMillis = 1, InFlight = 5,
           WaitMillis = 4 :: int64 \<rparr>"
  have a: "0 < sint Second" and b: "sint Second < 2 ^ 62" by (simp_all add: Second_def)
  have c: "stats 0 Second previous current = Inr (scenario 0)" by (rule stats_scenario_value)
  have d: "stats 1 (2 * Second) previous current = Inr ?s'"
    by (simp add: stats_def Second_def quo_def previous_def current_def)
  from stats_double_interval [OF a b c d] a b c d show ?thesis by simp
qed

lemma sampleInterval_positive: "0 < sint (sampleInterval (main_flags fl))"
  by (simp add: main_flags_def Let_def Second_def)

lemma sampleInterval_default: "sampleInterval (main_flags default_flags) = Second"
  by (simp add: main_flags_def default_flags_def Let_def Second_def)

text \<open>
  Claim C3. The code breaks it. From \<open>idle\<close> to \<open>burst\<close> no counter goes down, and the
  rate the formula asks for, \<open>18014399 * 512\<close> bytes in one second, is positive and fits
  \<^verbatim>\<open>int64\<close>. But the code multiplies by \<open>512 * 10^9\<close> before it divides by the interval:
  the product exceeds \<open>2^63\<close> and wraps, and the byte rate it computes is negative, at the
  default interval of one second and at sixty seconds alike.
\<close>

theorem stats_byte_rate_overflow:
  "list_all2 (\<lambda>p c. sint p \<le> sint c) idle burst \<and>
   sampleInterval (main_flags default_flags) = Second \<and>
   stats 0 Second idle burst =
     Inr \<lparr> Timestamp = 0, ReadsPerSec = 0, BytesReadPerSec = - 9223371785, ReadMillis = 0,
           WritesPerSec = 0, BytesWrittenPerSec = 0, WriteMillis = 0, InFlight = 0,
           WaitMillis = 0 \<rparr> \<and>
   sint (- 9223371785 :: int64) < 0 \<and>
   (18014399 * 512 :: int) = 9223372288 \<and> (9223372288 :: int) < 2 ^ 63 \<and>
   stats 0 (60 * Second) idle burst =
     Inr \<lparr> Timestamp = 0, ReadsPerSec = 0, BytesReadPerSec = - 153722863, ReadMillis = 0,
           WritesPerSec = 0, BytesWrittenPerSec = 0, WriteMillis = 0, InFlight = 0,
           WaitMillis = 0 \<rparr> \<and>
   sint (- 153722863 :: int64) < 0"
  by (simp add: sampleInterval_default) (simp add: stats_def Second_def quo_def idle_def burst_def)

text \<open>
  Where no product overflows, the computed rates are not negative: at the interval
  \<open>main\<close> has configured, if none of the counters 0, 2, 3, 4, 6, 7 and 10 went down and
  each delta times \<open>10^9\<close> (for the two sector counters times \<open>512 * 10^9\<close>) is below
  \<open>2^63\<close>.
\<close>

lemma stats_nonneg_without_overflow:
  assumes "\<forall>i \<in> {0, 3, 4, 7, 10}.
           sint (prev ! i) \<le> sint (cur ! i) \<and>
           (sint (cur ! i) - sint (prev ! i)) * 1000000000 < 2 ^ 63"
    and "\<forall>i \<in> {2, 6}.
           sint (prev ! i) \<le> sint (cur ! i) \<and>
           (sint (cur ! i) - sint (prev ! i)) * 512000000000 < 2 ^ 63"
    and "stats now (sampleInterval (main_flags fl)) prev cur = Inr s"
  shows "0 \<le> sint (ReadsPerSec s) \<and> 0 \<le> sint (BytesReadPerSec s) \<and>
         0 \<le> sint (ReadMillis s) \<and> 0 \<le> sint (WritesPerSec s) \<and>
         0 \<le> sint (BytesWrittenPerSec s) \<and> 0 \<le> sint (WriteMillis s) \<and>
         0 \<le> sint (WaitMillis s)"
proof -
  let ?S = "sampleInterval (main_flags fl)"
  have pos: "0 < sint ?S" by (rule sampleInterval_positive)
  have r: "\<And>i. i \<in> {0, 3, 4, 7, 10} \<Longrightarrow> 0 \<le> sint (quo ((cur ! i - prev ! i) * Second) ?S)"
    using pos assms(1) by (intro rate_nonneg) blast+
  have b: "\<And>i. i \<in> {2, 6} \<Longrightarrow> 0 \<le> sint (quo ((cur ! i - prev ! i) * 512 * Second) ?S)"
    using pos assms(2) by (intro byte_rate_nonneg) blast+
  have "?S \<noteq> 0" using pos by auto
  then have
    "s = \<lparr> Timestamp = now,
           ReadsPerSec = quo ((cur ! 0 - prev ! 0) * Second) ?S,
           BytesReadPerSec = quo ((cur ! 2 - prev ! 2) * 512 * Second) ?S,
           ReadMillis = quo ((cur ! 3 - prev ! 3) * Second) ?S,
           WritesPerSec = quo ((cur ! 4 - prev ! 4) * Second) ?S,
           BytesWrittenPerSec = quo ((cur ! 6 - prev ! 6) * 512 * Second) ?S,
           WriteMillis = quo ((cur ! 7 - prev ! 7) * Second) ?S,
           InFlight = cur ! 8,
           WaitMillis = quo ((cur ! 10 - prev ! 10) * Second) ?S \<rparr>"
    using assms(3) by (simp add: stats_def)
  then show ?thesis
    using r [of 0] r [of 3] r [of 4] r [of 7] r [of 10] b [of 2] b [of 6] by simp
qed

text \<open>
  Claim C5. The in-flight field of the computed value is \<open>cur[8]\<close>, whatever \<open>prev\<close> and
  the interval are.
\<close>

theorem stats_InFlight:
  "stats now interval prev cur = Inr s \<Longrightarrow> InFlight s = cur ! 8"
  by (auto simp: stats_def split: if_splits)

theorem stats_InFlight_witness:
  "stats 0 Second previous current = Inr (scenario 0) \<and> InFlight (scenario 0) = current ! 8 \<and>
   stats 0 Second idle current =
     Inr \<lparr> Timestamp = 0, ReadsPerSec = 110, BytesReadPerSec = 1126400, ReadMillis = 55,
           WritesPerSec = 44, BytesWrittenPerSec = 450560, WriteMillis = 22, InFlight = 5,
           WaitMillis = 99 \<rparr> \<and>
   current ! 8 = 5"
proof -
  have d: "stats 0 Second previous current = Inr (scenario 0)" by (rule stats_scenario_value)
  have e: "stats 0 Second idle current =
     Inr \<lparr> Timestamp = 0, ReadsPerSec = 110, BytesReadPerSec = 1126400, ReadMillis = 55,
           WritesPerSec = 44, BytesWrittenPerSec = 450560, WriteMillis = 22, InFlight = 5,
           WaitMillis = 99 \<rparr>"
    by (simp add: stats_def Second_def quo_def idle_def current_def)
  from stats_InFlight [OF d] d e show ?thesis by (simp add: current_def)
qed

text \<open>
  Claim C10. Two pairs of readings that agree on the counters 0, 2, 3, 4, 6, 7, 8 and 10
  (and may differ on the merge counts 1 and 5 and on the io-ticks 9) give, at the same
  interval, values that are equal in every field but the timestamp.
\<close>

theorem stats_unused_fields:
  assumes "\<forall>i \<in> {0, 2, 3, 4, 6, 7, 8, 10}. prev ! i = prev' ! i \<and> cur ! i = cur' ! i"
    and "stats now interval prev cur = Inr s"
    and "stats now' interval prev' cur' = Inr s'"
  shows "s'\<lparr>Timestamp := Timestamp s\<rparr> = s"
  using assms by (auto simp: stats_def split: if_splits)

theorem stats_unused_fields_witness:
  "list_all (\<lambda>i. previous ! i = previous' ! i \<and> current ! i = current' ! i)
     [0, 2, 3, 4, 6, 7, 8, 10] \<and>
   previous ! 1 \<noteq> previous' ! 1 \<and> current ! 5 \<noteq> current' ! 5 \<and> current ! 9 \<noteq> current' ! 9 \<and>
   stats 0 Second previous current = Inr (scenario 0) \<and>
   stats 1 Second previous' current' = Inr (scenario 1) \<and>
   (scenario 1)\<lparr>Timestamp := Timestamp (scenario 0)\<rparr> = scenario 0"
proof -
  have a: "\<forall>i \<in> {0, 2, 3, 4, 6, 7, 8, 10}.
             previous ! i = previous' ! i \<and> current ! i = current' ! i"
    by (simp add: previous_def current_def previous'_def current'_def)
  have b: "stats 0 Second previous current = Inr (scenario 0)" by (rule stats_scenario_value)
  have c: "stats 1 Second previous' current' = Inr (scenario 1)"
    by (simp add: stats_def Second_def quo_def previous'_def current'_def scenario_def)
  from stats_unused_fields [OF a b c] a b c show ?thesis
    by (simp add: previous_def current_def previous'_def current'_def)
qed

section \<open>What readStat accepts\<close>

lemma ParseInt_iff:
  "ParseInt tok = Inr v \<longleftrightarrow>
     int_literal tok \<and> - (2 ^ 63) \<le> literal_value tok \<and> literal_value tok < 2 ^ 63 \<and>
     v = word_of_int (literal_value tok)"
proof -
  define ds where "ds = (if tok \<noteq> [] \<and> sign (hd tok) then tl tok else tok)"
  define n where "n = literal_value tok"
  have lv: "n = (if tok \<noteq> [] \<and> hd tok = 0x2d then - int (decimal ds) else int (decimal ds))"
    by (auto simp: literal_value_def ds_def sign_def n_def)
  have il: "int_literal tok \<longleftrightarrow> ds \<noteq> [] \<and> list_all isDigit ds"
    by (simp add: int_literal_def ds_def Let_def)
  have "ParseInt tok =
          (if ds = [] \<or> \<not> list_all isDigit ds then Inl SyntaxError
           else if n < - (2 ^ 63) \<or> 2 ^ 63 - 1 < n then Inl RangeError
           else Inr (word_of_int n))"
    unfolding lv by (simp add: ParseInt_def Let_def ds_def)
  then have "ParseInt tok = Inr v \<longleftrightarrow> int_literal tok \<and> - (2 ^ 63) \<le> n \<and> n < 2 ^ 63 \<and> v = word_of_int n"
    using il by auto
  then show ?thesis by (simp add: n_def)
qed

lemma isDigit_decimalDigits: "isDigit r \<Longrightarrow> decimalDigits r"
  by (simp add: decimalDigits_def)

lemma sign_not_isSpace: "sign r \<Longrightarrow> \<not> isSpace r"
  by (auto simp: sign_def isSpace_def space_def)

lemma isDigit_not_isSpace: "isDigit r \<Longrightarrow> \<not> isSpace r"
  by (auto simp: isDigit_def isSpace_def space_def)

lemma decimalDigits_not_sign: "decimalDigits r \<Longrightarrow> \<not> sign r"
  by (auto simp: decimalDigits_def isDigit_def sign_def)

lemma int_literal_hd: "int_literal lit \<Longrightarrow> lit \<noteq> [] \<and> \<not> isSpace (hd lit)"
  by (cases lit) (auto simp: int_literal_def Let_def sign_not_isSpace isDigit_not_isSpace split: if_splits)

lemma SkipSpace_blanks: "list_all blank sp \<Longrightarrow> SkipSpace (sp @ xs) = SkipSpace xs"
  by (induction sp) (auto simp: blank_def)

lemma isSpace_newline: "isSpace 0x0a"
  by (simp add: isSpace_def space_def)

lemma SkipSpace_stop: "xs = [] \<or> \<not> isSpace (hd xs) \<Longrightarrow> SkipSpace xs = Inr xs"
proof (cases xs)
  case Nil
  then show ?thesis by simp
next
  case (Cons r rs)
  assume "xs = [] \<or> \<not> isSpace (hd xs)"
  then have n: "\<not> isSpace r" using Cons by simp
  then have "r \<noteq> 0x0a" using isSpace_newline by metis
  then show ?thesis using Cons n by simp
qed

lemma SkipSpace_Inr:
  "SkipSpace w = Inr w' \<Longrightarrow>
     \<exists>sp. w = sp @ w' \<and> list_all blank sp \<and> (w' = [] \<or> \<not> isSpace (hd w'))"
proof (induction w)
  case Nil
  then show ?case by simp
next
  case (Cons r rs)
  show ?case
  proof (cases "r \<noteq> 0x0a \<and> isSpace r")
    case True
    then have "SkipSpace rs = Inr w'" using Cons.prems by simp
    then obtain sp where "rs = sp @ w'" "list_all blank sp" "w' = [] \<or> \<not> isSpace (hd w')"
      using Cons.IH by blast
    then have "r # rs = (r # sp) @ w' \<and> list_all blank (r # sp) \<and> (w' = [] \<or> \<not> isSpace (hd w'))"
      using True by (simp add: blank_def)
    then show ?thesis by blast
  next
    case False
    then have "w' = r # rs \<and> \<not> isSpace r"
      using Cons.prems by (auto split: if_splits)
    then have "r # rs = [] @ w' \<and> list_all blank [] \<and> (w' = [] \<or> \<not> isSpace (hd w'))"
      by simp
    then show ?thesis by blast
  qed
qed

lemma takeWhile_dropWhile_ended:
  assumes "list_all P ds" "w = [] \<or> \<not> P (hd w)"
  shows "takeWhile P (ds @ w) = ds \<and> dropWhile P (ds @ w) = w"
  using assms by (cases w) (auto simp: list_all_iff)

lemma scanNumber_digits:
  assumes "ds \<noteq> []" "list_all isDigit ds" "ended w"
  shows "scanNumber (ds @ w) = Inr (ds, w)"
proof -
  have all: "list_all decimalDigits ds"
    using assms(2) by (simp add: list_all_iff isDigit_decimalDigits)
  have "takeWhile decimalDigits (ds @ w) = ds \<and> dropWhile decimalDigits (ds @ w) = w"
    using all assms(3)
    by (intro takeWhile_dropWhile_ended) (simp_all add: ended_def decimalDigits_def)
  moreover have "decimalDigits (hd (ds @ w))"
    using assms(1) all by (cases ds) simp_all
  ultimately show ?thesis
    using assms(1) by (cases ds) (simp_all add: scanNumber_def)
qed

lemma scanInt_literal:
  assumes "int_literal lit" "- (2 ^ 63) \<le> literal_value lit" "literal_value lit < 2 ^ 63" "ended w"
  shows "scanInt (lit @ w) = Inr (word_of_int (literal_value lit), w)"
proof -
  obtain r rs where lit: "lit = r # rs" using assms(1) int_literal_hd by (cases lit) auto
  have skip: "SkipSpace (lit @ w) = Inr (lit @ w)"
    using int_literal_hd [OF assms(1)] by (intro SkipSpace_stop) (cases lit; simp)
  have parse: "ParseInt lit = Inr (word_of_int (literal_value lit))"
    using assms by (simp add: ParseInt_iff)
  show ?thesis
  proof (cases "sign r")
    case True
    then have "rs \<noteq> []" "list_all isDigit rs"
      using assms(1) lit by (simp_all add: int_literal_def)
    then have "scanNumber (rs @ w) = Inr (rs, w)" using assms(4) by (rule scanNumber_digits)
    then show ?thesis using skip True lit parse by (simp add: scanInt_def)
  next
    case False
    then have "lit \<noteq> []" "list_all isDigit lit"
      using assms(1) lit by (simp_all add: int_literal_def)
    then have "scanNumber (lit @ w) = Inr (lit, w)" using assms(4) by (rule scanNumber_digits)
    then show ?thesis using skip False lit parse by (simp add: scanInt_def)
  qed
qed

lemma doScanf_d_field:
  assumes "field_ok f" "ended w"
  shows "doScanf_d (field_text f @ w) = Inr (field_value f, w)"
proof -
  have "SkipSpace (fst f @ snd f @ w) = Inr (snd f @ w)"
    using assms(1) int_literal_hd [of "snd f"]
    by (simp add: SkipSpace_blanks field_ok_def) (intro SkipSpace_stop, cases "snd f", simp_all)
  then show ?thesis
    using assms by (simp add: doScanf_d_def field_text_def field_value_def field_ok_def scanInt_literal)
qed

lemma ended_take: "ended w \<Longrightarrow> 0 < k \<Longrightarrow> ended (take k w)"
  by (cases w; cases k) (simp_all add: ended_def)

lemma Fscanf_d_field:
  assumes "field_ok f" "ended rest" "length (field_text f) < hugeWid"
  shows "Fscanf_d (field_text f @ rest) = Inr (field_value f, rest)"
proof -
  let ?k = "hugeWid - length (field_text f)"
  have k: "0 < ?k" using assms(3) by simp
  have t: "take hugeWid (field_text f @ rest) = field_text f @ take ?k rest"
    using assms(3) by simp
  have d: "drop hugeWid (field_text f @ rest) = drop ?k rest"
    using assms(3) by simp
  have s: "doScanf_d (field_text f @ take ?k rest) = Inr (field_value f, take ?k rest)"
    using assms(1) ended_take [OF assms(2) k] by (rule doScanf_d_field)
  have "Fscanf_d (field_text f @ rest) =
          (case doScanf_d (field_text f @ take ?k rest) of
             Inl e \<Rightarrow> Inl e
           | Inr (v, w) \<Rightarrow> Inr (v, w @ drop ?k rest))"
    by (simp only: Fscanf_d_def t d)
  also have "\<dots> = Inr (field_value f, take ?k rest @ drop ?k rest)"
    by (simp only: s sum.case prod.case)
  finally show ?thesis by simp
qed

lemma scan_fields_fields:
  "list_all field_ok fs \<Longrightarrow> fields_ended fs rest \<Longrightarrow>
     scan_fields (length fs) (fields_text fs @ rest) = Inr (map field_value fs, rest)"
proof (induction fs)
  case Nil
  then show ?case by (simp add: fields_text_def)
next
  case (Cons f fs)
  have "Fscanf_d (field_text f @ (fields_text fs @ rest)) = Inr (field_value f, fields_text fs @ rest)"
    using Cons.prems by (intro Fscanf_d_field) simp_all
  moreover have "fields_text (f # fs) @ rest = field_text f @ (fields_text fs @ rest)"
    by (simp add: fields_text_def)
  ultimately show ?case using Cons by simp
qed

lemma accept_sign_Inr:
  "accept_sign w = (sg, w') \<Longrightarrow> w = sg @ w' \<and> (sg = [] \<or> (\<exists>r. sg = [r] \<and> sign r))"
  by (cases w) (auto split: if_splits)

lemma scanNumber_Inr:
  "scanNumber w = Inr (ds, w') \<Longrightarrow> w = ds @ w' \<and> ds \<noteq> [] \<and> list_all decimalDigits ds"
  by (cases w) (auto simp: scanNumber_def list_all_iff split: if_splits dest: set_takeWhileD)

lemma scanInt_Inr:
  assumes "scanInt w = Inr (v, w')"
  shows "\<exists>f. w = field_text f @ w' \<and> field_ok f \<and> v = field_value f"
proof -
  obtain w1 where w1: "SkipSpace w = Inr w1" "w1 \<noteq> []"
    using assms by (auto simp: scanInt_def split: sum.splits if_splits)
  obtain sg w2 where sg: "accept_sign w1 = (sg, w2)" by (cases "accept_sign w1")
  obtain ds where ds: "scanNumber w2 = Inr (ds, w')" and p: "ParseInt (sg @ ds) = Inr v"
    using assms w1 sg by (auto simp: scanInt_def split: sum.splits if_splits)
  obtain sp where sp: "w = sp @ w1" "list_all blank sp"
    using SkipSpace_Inr [OF w1(1)] by blast
  have "w1 = sg @ w2" using accept_sign_Inr [OF sg] by simp
  moreover have "w2 = ds @ w'" using scanNumber_Inr [OF ds] by simp
  ultimately have "w = field_text (sp, sg @ ds) @ w'"
    using sp by (simp add: field_text_def)
  moreover have "field_ok (sp, sg @ ds) \<and> v = field_value (sp, sg @ ds)"
    using p sp(2) by (simp add: ParseInt_iff field_ok_def field_value_def)
  ultimately show ?thesis by blast
qed

lemma doScanf_d_Inr:
  assumes "doScanf_d w = Inr (v, w')"
  shows "\<exists>f. w = field_text f @ w' \<and> field_ok f \<and> v = field_value f"
proof -
  obtain w1 where w1: "SkipSpace w = Inr w1" and s: "scanInt w1 = Inr (v, w')"
    using assms by (auto simp: doScanf_d_def split: sum.splits)
  obtain sp where sp: "w = sp @ w1" "list_all blank sp"
    using SkipSpace_Inr [OF w1] by blast
  obtain f where f: "w1 = field_text f @ w'" "field_ok f" "v = field_value f"
    using scanInt_Inr [OF s] by blast
  have "w = field_text (sp @ fst f, snd f) @ w' \<and> field_ok (sp @ fst f, snd f) \<and>
        v = field_value (sp @ fst f, snd f)"
    using sp f by (simp add: field_text_def field_ok_def field_value_def)
  then show ?thesis by blast
qed

lemma Fscanf_d_Inr:
  assumes "Fscanf_d inp = Inr (v, rest)"
  shows "\<exists>f. inp = field_text f @ rest \<and> field_ok f \<and> v = field_value f"
proof -
  obtain w where w: "doScanf_d (take hugeWid inp) = Inr (v, w)" and r: "rest = w @ drop hugeWid inp"
    using assms by (auto simp: Fscanf_d_def split: sum.splits)
  obtain f where f: "take hugeWid inp = field_text f @ w" "field_ok f" "v = field_value f"
    using doScanf_d_Inr [OF w] by blast
  have "inp = take hugeWid inp @ drop hugeWid inp" by simp
  then have "inp = field_text f @ rest" using f(1) r by simp
  then show ?thesis using f by blast
qed

lemma scan_fields_Suc_Inr:
  assumes "scan_fields (Suc n) inp = Inr (vs, rest)"
  shows "\<exists>v mid vs'. Fscanf_d inp = Inr (v, mid) \<and> scan_fields n mid = Inr (vs', rest) \<and> vs = v # vs'"
proof (cases "Fscanf_d inp")
  case (Inl e)
  then show ?thesis using assms by simp
next
  case (Inr p)
  obtain v mid where p: "p = (v, mid)" by (cases p)
  show ?thesis
  proof (cases "scan_fields n mid")
    case (Inl e)
    then show ?thesis using assms Inr p by simp
  next
    case r: (Inr q)
    obtain vs' rest' where q: "q = (vs', rest')" by (cases q)
    then show ?thesis using assms Inr p r by simp
  qed
qed

lemma scan_fields_Inr:
  "scan_fields n inp = Inr (vs, rest) \<Longrightarrow>
     \<exists>fs. length fs = n \<and> list_all field_ok fs \<and> inp = fields_text fs @ rest \<and>
          vs = map field_value fs"
proof (induction n arbitrary: inp vs)
  case 0
  then have "inp = rest" "vs = []" by simp_all
  then have "length ([] :: field list) = 0 \<and> list_all field_ok [] \<and>
             inp = fields_text [] @ rest \<and> vs = map field_value []"
    by (simp add: fields_text_def)
  then show ?case by (rule exI)
next
  case (Suc n)
  obtain v mid vs' where h: "Fscanf_d inp = Inr (v, mid)"
    and t: "scan_fields n mid = Inr (vs', rest)" and vs: "vs = v # vs'"
    using scan_fields_Suc_Inr [OF Suc.prems] by blast
  obtain f where f: "inp = field_text f @ mid" "field_ok f" "v = field_value f"
    using Fscanf_d_Inr [OF h] by blast
  obtain fs where fs: "length fs = n" "list_all field_ok fs" "mid = fields_text fs @ rest"
    "vs' = map field_value fs"
    using Suc.IH [OF t] by blast
  have "length (f # fs) = Suc n \<and> list_all field_ok (f # fs) \<and>
        inp = fields_text (f # fs) @ rest \<and> vs = map field_value (f # fs)"
    using f fs vs by (simp add: fields_text_def)
  then show ?case by (rule exI)
qed

lemma scan_fields_numeral:
  "scan_fields (numeral k) inp =
     (case Fscanf_d inp of
        Inl e \<Rightarrow> Inl e
      | Inr (v, rest) \<Rightarrow>
          (case scan_fields (pred_numeral k) rest of
             Inl e \<Rightarrow> Inl e
           | Inr (vs, rest') \<Rightarrow> Inr (v # vs, rest')))"
  by (simp add: numeral_eq_Suc)

lemmas scan_eval =
  readStat_def scan_fields_numeral runes_def Fscanf_d_def hugeWid_def doScanf_d_def scanInt_def
  scanNumber_def ParseInt_def isSpace_def space_def decimalDigits_def isDigit_def sign_def
  decimal_def

lemma readStat_current_text:
  "readStat current_text = Inr (current, runes '' 0 0 0 0'' @ [0x0a])"
  by (simp add: scan_eval current_text_def current_def)

lemma readStat_previous_text: "readStat previous_text = Inr (previous, [0x0a])"
  by (simp add: scan_eval previous_text_def previous_def)

























text \<open>
  Claim C9, as stated: every input that holds 11 or more integers separated by white
  space is accepted. It fails when a newline stands before one of the first 11: the
  format \<^verbatim>\<open>%d\<close> of \<^verbatim>\<open>Fscanf\<close> has no newline, so a newline in the input is an error.
\<close>

theorem readStat_newline_counterexample:
  "lines_text = runes ''1'' @ [0x0a] @ runes ''2 3 4 5 6 7 8 9 10 11'' \<and>
   isSpace 0x0a \<and>
   readStat lines_text = Inl UnexpectedNewline"
  by (simp add: scan_eval lines_text_def)

text \<open>
  Claim C9, amended. If the input begins with 11 fields, each white space other than a
  newline followed by an optionally signed decimal literal within \<^verbatim>\<open>int64\<close>, each
  literal followed by the end of the input or by a rune that is not a digit, and each
  field shorter than \<open>2^30\<close> runes, then \<open>readStat\<close> succeeds,
  returns the values of these 11 literals in their order and leaves everything after
  the eleventh literal in the reader, unread and unchecked.
\<close>

theorem readStat_first_eleven:
  assumes "length fs = 11" and "list_all field_ok fs" and "fields_ended fs rest"
  shows "readStat (fields_text fs @ rest) = Inr (map field_value fs, rest)"
  using scan_fields_fields [OF assms(2,3)] assms(1) by (simp add: readStat_def)

theorem readStat_first_eleven_witness:
  "length current_fields = 11 \<and> list_all field_ok current_fields \<and>
   fields_ended current_fields (runes ''_ 0 junk'' @ [0x0a]) \<and>
   map field_value current_fields = current \<and>
   readStat (runes ''110 0 2200 55 44 0 880 22 5 77 99_ 0 junk'' @ [0x0a]) =
     Inr (current, runes ''_ 0 junk'' @ [0x0a])"
proof -
  have a: "length current_fields = 11" by (simp add: current_fields_def)
  have b: "list_all field_ok current_fields"
    by (simp add: current_fields_def field_ok_def blank_def int_literal_def literal_value_def
        runes_def isSpace_def space_def isDigit_def sign_def decimal_def)
  have c: "fields_ended current_fields (runes ''_ 0 junk'' @ [0x0a])"
    by (simp add: current_fields_def fields_text_def field_text_def ended_def hugeWid_def
        runes_def decimalDigits_def isDigit_def)
  have d: "map field_value current_fields = current"
    by (simp add: current_fields_def current_def field_value_def literal_value_def runes_def
        decimal_def)
  have e: "fields_text current_fields @ runes ''_ 0 junk'' @ [0x0a] =
           runes ''110 0 2200 55 44 0 880 22 5 77 99_ 0 junk'' @ [0x0a]"
    by (simp add: current_fields_def fields_text_def field_text_def runes_def)
  from readStat_first_eleven [OF a b c] a b c d e show ?thesis by simp
qed

section \<open>The flags\<close>

lemma TrimSpace_Nil: "TrimSpace [] = []"
  by (simp add: TrimSpace_def)

lemma TrimSpace_digits: "list_all isDigit s \<Longrightarrow> TrimSpace s = s"
proof -
  assume d: "list_all isDigit s"
  have a: "dropWhile isSpace s = s"
    using d by (cases s) (auto simp: isDigit_not_isSpace)
  have "list_all isDigit (rev s)" using d by (simp add: list_all_iff)
  then have b: "dropWhile isSpace (rev s) = rev s"
    by (cases "rev s") (auto simp: isDigit_not_isSpace)
  show ?thesis by (simp add: TrimSpace_def a b)
qed

lemma main_no_devices:
  "devices fl = [] \<Longrightarrow>
     main fl =
       \<lparr> lastSamples = [(runes ''sda'', 0)], cells = [None],
         goroutines =
           [\<lparr> statFile = runes ''/sys/block/sda/stat'', lastSample = 0, state = Starting \<rparr>],
         stdout = [] \<rparr>"
  by (simp add: main_def main_flags_def Let_def TrimSpace_Nil runes_def)

text \<open>
  Claim C7. After the normalisation in \<open>main\<close>: a sample interval that is not positive
  has become one second; an empty device list has become the one device \<^verbatim>\<open>sda\<close>, so
  one goroutine is started, on \<^verbatim>\<open>/sys/block/sda/stat\<close>; and a listen address that is a
  bare port number (digits only, \<^verbatim>\<open>9090\<close>) has got the colon in front (\<^verbatim>\<open>:9090\<close>).
\<close>

theorem main_flags_normalize:
  "(sint (sampleInterval fl) \<le> 0 \<longrightarrow> sampleInterval (main_flags fl) = Second) \<and>
   (devices fl = [] \<longrightarrow>
      Split (devices (main_flags fl)) = [runes ''sda''] \<and>
      map statFile (goroutines (main fl)) = [runes ''/sys/block/sda/stat'']) \<and>
   (httpPort fl = runes ''9090'' \<longrightarrow> httpPort (main_flags fl) = runes '':9090'') \<and>
   (list_all isDigit (httpPort fl) \<longrightarrow> httpPort (main_flags fl) = 0x3a # httpPort fl)"
proof (intro conjI impI)
  assume "sint (sampleInterval fl) \<le> 0"
  then show "sampleInterval (main_flags fl) = Second"
    by (simp add: main_flags_def Let_def)
next
  assume "devices fl = []"
  then show "Split (devices (main_flags fl)) = [runes ''sda'']"
    by (simp add: main_flags_def Let_def TrimSpace_Nil runes_def)
next
  assume "devices fl = []"
  then show "map statFile (goroutines (main fl)) = [runes ''/sys/block/sda/stat'']"
    by (simp add: main_no_devices)
next
  assume "httpPort fl = runes ''9090''"
  then show "httpPort (main_flags fl) = runes '':9090''"
    by (simp add: main_flags_def Let_def TrimSpace_def runes_def isSpace_def space_def)
next
  assume d: "list_all isDigit (httpPort fl)"
  have "httpPort fl \<noteq> [] \<Longrightarrow> hd (httpPort fl) \<noteq> 0x3a"
    using d by (cases "httpPort fl") (auto simp: isDigit_def)
  then show "httpPort (main_flags fl) = 0x3a # httpPort fl"
    using d by (auto simp: main_flags_def Let_def TrimSpace_digits)
qed

theorem main_flags_normalize_witness:
  "sint (sampleInterval \<lparr>sampleInterval = 0, httpPort = runes ''9090'', devices = []\<rparr>) \<le> 0 \<and>
   list_all isDigit (runes ''9090'') \<and>
   main_flags \<lparr>sampleInterval = 0, httpPort = runes ''9090'', devices = []\<rparr> =
     \<lparr>sampleInterval = Second, httpPort = runes '':9090'', devices = runes ''sda''\<rparr> \<and>
   Split (runes ''sda'') = [runes ''sda''] \<and>
   map statFile (goroutines (main \<lparr>sampleInterval = 0, httpPort = runes ''9090'', devices = []\<rparr>)) =
     [runes ''/sys/block/sda/stat'']"
  using main_flags_normalize [of "\<lparr>sampleInterval = 0, httpPort = runes ''9090'', devices = []\<rparr>"]
  by (simp add: runes_def isDigit_def main_flags_def TrimSpace_def)

section \<open>The store and the handler\<close>

lemma set_update_subset:
  "e \<in> set (AList.update k v al) \<Longrightarrow> e = (k, v) \<or> e \<in> set al"
  by (induction al) (auto split: if_splits)

lemma spawn_wf:
  "wf st \<Longrightarrow> (\<forall>g < length (goroutines st). phase st g 0) \<Longrightarrow>
     wf (spawn devs st) \<and> (\<forall>g < length (goroutines (spawn devs st)). phase (spawn devs st) g 0)"
proof (induction devs arbitrary: st)
  case Nil
  then show ?case by simp
next
  case (Cons dev devs)
  let ?st = "\<lparr> lastSamples = AList.update dev (length (cells st)) (lastSamples st),
         cells = cells st @ [None],
         goroutines = goroutines st @
           [\<lparr> statFile = runes ''/sys/block/'' @ dev @ runes ''/stat'',
              lastSample = length (cells st),
              state = Starting \<rparr>],
         stdout = stdout st \<rparr>"
  have len: "length (cells st) = length (goroutines st)" using Cons.prems(1) by (simp add: wf_def)
  have "wf ?st"
    unfolding wf_def
  proof (intro conjI allI impI ballI)
    show "length (cells ?st) = length (goroutines ?st)" using len by simp
  next
    fix g assume "g < length (goroutines ?st)"
    then show "lastSample (goroutines ?st ! g) = g"
      using Cons.prems(1) len by (auto simp: wf_def nth_append less_Suc_eq)
  next
    show "distinct (map fst (lastSamples ?st))"
      using Cons.prems(1) by (simp add: wf_def distinct_update)
  next
    fix e assume "e \<in> set (lastSamples ?st)"
    then have "e = (dev, length (cells st)) \<or> e \<in> set (lastSamples st)"
      using set_update_subset by fastforce
    then show "snd e < length (cells ?st)"
      using Cons.prems(1) by (auto simp: wf_def less_Suc_eq)
  qed
  moreover have "\<forall>g < length (goroutines ?st). phase ?st g 0"
    using Cons.prems(2) len by (auto simp: phase_def nth_append less_Suc_eq)
  ultimately show ?case using Cons.IH [of ?st] by simp
qed

lemma main_wf: "wf (main fl) \<and> (\<forall>g < length (goroutines (main fl)). phase (main fl) g 0)"
  unfolding main_def by (rule spawn_wf) (simp_all add: wf_def)

lemma step_cases:
  assumes "step interval st (g, now, file) = Inr st'"
  shows "(length (goroutines st) \<le> g \<and> st' = st) \<or>
         (g < length (goroutines st) \<and> state (goroutines st ! g) = Starting \<and>
            (\<exists>prev. st' = st\<lparr>goroutines := (goroutines st)[g := (goroutines st ! g)\<lparr>state := Running prev\<rparr>]\<rparr>)) \<or>
         (g < length (goroutines st) \<and> (\<exists>p. state (goroutines st ! g) = Running p) \<and>
            (\<exists>out s cur. st' = st\<lparr>stdout := stdout st @ [out],
                           cells := (cells st)[lastSample (goroutines st ! g) := Some s],
                           goroutines := (goroutines st)[g := (goroutines st ! g)\<lparr>state := Running cur\<rparr>]\<rparr>))"
proof (cases "length (goroutines st) \<le> g")
  case True
  then show ?thesis using assms by (simp add: step_def)
next
  case False
  show ?thesis
  proof (cases "state (goroutines st ! g)")
    case Starting
    then show ?thesis using assms False
      by (cases "monitor_start interval file") (auto simp: step_def Let_def)
  next
    case (Running p)
    show ?thesis
    proof (cases "monitor_tick interval now file p")
      case (Inl e)
      then show ?thesis using assms False Running by (simp add: step_def Let_def)
    next
      case (Inr r)
      obtain out s cur where "r = (out, s, cur)" by (cases r)
      then show ?thesis using assms False Running Inr by (auto simp: step_def Let_def)
    qed
  qed
qed

lemma step_wf:
  assumes "wf st" "step interval st ev = Inr st'"
  shows "wf st' \<and> lastSamples st' = lastSamples st \<and>
         length (goroutines st') = length (goroutines st)"
proof -
  obtain g now ans where ev: "ev = (g, now, ans)" by (cases ev)
  from step_cases [OF assms(2) [unfolded ev]] show ?thesis
    using assms(1) by (fastforce simp: wf_def nth_list_update)
qed

lemma step_phase:
  assumes "wf st" "step interval st ev = Inr st'" "h < length (goroutines st)" "phase st h k"
  shows "phase st' h (k + (if fst ev = h then 1 else 0))"
proof -
  obtain g now ans where ev: "ev = (g, now, ans)" by (cases ev)
  have len: "length (cells st) = length (goroutines st)"
    and own: "\<And>g. g < length (goroutines st) \<Longrightarrow> lastSample (goroutines st ! g) = g"
    using assms(1) by (simp_all add: wf_def)
  from step_cases [OF assms(2) [unfolded ev]] show ?thesis
  proof (elim disjE conjE exE)
    assume "length (goroutines st) \<le> g" "st' = st"
    then show ?thesis using assms(3,4) ev by auto
  next
    fix prev
    assume "g < length (goroutines st)" "state (goroutines st ! g) = Starting"
      "st' = st\<lparr>goroutines := (goroutines st)[g := (goroutines st ! g)\<lparr>state := Running prev\<rparr>]\<rparr>"
    then show ?thesis using assms(3,4) ev
      by (cases "g = h") (auto simp: phase_def nth_list_update)
  next
    fix p out s cur
    assume g: "g < length (goroutines st)" "state (goroutines st ! g) = Running p"
      "st' = st\<lparr>stdout := stdout st @ [out],
                  cells := (cells st)[lastSample (goroutines st ! g) := Some s],
                  goroutines := (goroutines st)[g := (goroutines st ! g)\<lparr>state := Running cur\<rparr>]\<rparr>"
    then show ?thesis using assms(3,4) ev len own [OF g(1)]
      by (cases "g = h") (auto simp: phase_def nth_list_update)
  qed
qed

lemma reads_Cons: "reads h (ev # evs) = (if fst ev = h then 1 else 0) + reads h evs"
  by (simp add: reads_def)

lemma run_wf:
  "run interval st evs = Inr st' \<Longrightarrow> wf st \<Longrightarrow>
     wf st' \<and> lastSamples st' = lastSamples st \<and>
     length (goroutines st') = length (goroutines st)"
proof (induction evs arbitrary: st)
  case Nil
  then show ?case by simp
next
  case (Cons ev evs)
  from Cons.prems(1) obtain mid where s: "step interval st ev = Inr mid"
    and r: "run interval mid evs = Inr st'"
    by (cases "step interval st ev") auto
  from step_wf [OF Cons.prems(2) s] Cons.IH [OF r] show ?case by simp
qed

lemma run_phase:
  "run interval st evs = Inr st' \<Longrightarrow> wf st \<Longrightarrow> h < length (goroutines st) \<Longrightarrow> phase st h k \<Longrightarrow>
     phase st' h (k + reads h evs)"
proof (induction evs arbitrary: st k)
  case Nil
  then show ?case by (simp add: reads_def)
next
  case (Cons ev evs)
  from Cons.prems(1) obtain mid where s: "step interval st ev = Inr mid"
    and r: "run interval mid evs = Inr st'"
    by (cases "step interval st ev") auto
  have w: "wf mid" "length (goroutines mid) = length (goroutines st)"
    using step_wf [OF Cons.prems(2) s] by simp_all
  have p: "phase mid h (k + (if fst ev = h then 1 else 0))"
    using Cons.prems(2) s Cons.prems(3,4) by (rule step_phase)
  have "h < length (goroutines mid)" using w(2) Cons.prems(3) by simp
  from Cons.IH [OF r w(1) this p] show ?case
    by (simp add: reads_Cons add.assoc)
qed

lemma filter_key_distinct:
  "distinct (map fst xs) \<Longrightarrow> (k, a) \<in> set xs \<Longrightarrow> filter (\<lambda>e. fst e = k) xs = [(k, a)]"
proof (induction xs)
  case Nil
  then show ?case by simp
next
  case (Cons x xs)
  show ?case
  proof (cases "x = (k, a)")
    case True
    then have "k \<notin> fst ` set xs" using Cons.prems(1) by simp
    then have "filter (\<lambda>e. fst e = k) xs = []" by (auto simp: filter_empty_conv)
    then show ?thesis using True by simp
  next
    case False
    then have "(k, a) \<in> set xs" using Cons.prems(2) by simp
    moreover from this have "k \<in> fst ` set xs" by force
    then have "fst x \<noteq> k" using Cons.prems(1) by auto
    ultimately show ?thesis using Cons by simp
  qed
qed

lemma map_filter_key:
  "filter (\<lambda>e. fst e = k)
     (List.map_filter (\<lambda>(name, a). case L a of None \<Rightarrow> None | Some s \<Rightarrow> Some (name, s)) xs) =
   List.map_filter (\<lambda>(name, a). case L a of None \<Rightarrow> None | Some s \<Rightarrow> Some (name, s))
     (filter (\<lambda>e. fst e = k) xs)"
  by (induction xs) (auto split: option.splits)

lemma handler_map_key:
  assumes "distinct (map fst (lastSamples st))" "(dev, a) \<in> set (lastSamples st)"
  shows "filter (\<lambda>e. fst e = dev) (handler_map st) =
           (case Load (cells st) a of None \<Rightarrow> [] | Some s \<Rightarrow> [(dev, s)])"
  unfolding handler_map_def map_filter_key filter_key_distinct [OF assms]
  by (simp split: option.splits)

lemma process_wf:
  assumes "process fl evs = Inr st"
  shows "wf st" and "length (goroutines st) = length (goroutines (main fl))"
    and "g < length (goroutines st) \<Longrightarrow> phase st g (reads g evs)"
proof -
  have r: "run (sampleInterval (main_flags fl)) (main fl) evs = Inr st"
    using assms by (simp add: process_def)
  show w: "wf st" and l: "length (goroutines st) = length (goroutines (main fl))"
    using run_wf [OF r] main_wf by simp_all
  assume "g < length (goroutines st)"
  then have g: "g < length (goroutines (main fl))" using l by simp
  have mw: "wf (main fl)" using main_wf by simp
  have p0: "phase (main fl) g 0" using main_wf [of fl] g by blast
  have "phase st g (0 + reads g evs)" using r mw g p0 by (rule run_phase)
  then show "phase st g (reads g evs)" by simp
qed

lemma step_other_goroutine:
  assumes "wf st" and "step interval st ev = Inr st'" and "fst ev \<noteq> g"
    and "g < length (goroutines st)"
  shows "cells st' ! g = cells st ! g"
proof -
  obtain h now ans where ev: "ev = (h, now, ans)" by (cases ev)
  have own: "\<And>h. h < length (goroutines st) \<Longrightarrow> lastSample (goroutines st ! h) = h"
    using assms(1) by (simp add: wf_def)
  from step_cases [OF assms(2) [unfolded ev]] show ?thesis
    using assms(3) ev own by auto
qed

lemma last_two_Nil: "last_two [] = None"
  by (simp add: last_two_def)

lemma last_two_single: "last_two [x] = None"
  by (simp add: last_two_def)

lemma last_two_snoc: "es \<noteq> [] \<Longrightarrow> last_two (es @ [e]) = Some (last es, e)"
  by (cases es) (simp_all add: last_two_def)

lemma monitor_start_Inr:
  "monitor_start interval ans = Inr prev \<Longrightarrow>
     \<exists>t rest. ans = Some t \<and> readStat t = Inr (prev, rest)"
  by (auto simp: monitor_start_def split: option.splits sum.splits if_splits)

lemma monitor_tick_Inr:
  "monitor_tick interval now ans prev = Inr (out, s, cur) \<Longrightarrow>
     \<exists>t rest. ans = Some t \<and> readStat t = Inr (cur, rest) \<and> stats now interval prev cur = Inr s"
  by (auto simp: monitor_tick_def split: option.splits sum.splits)

lemma step_own:
  assumes "wf st" and "g < length (goroutines st)"
    and "step interval st (g, now, ans) = Inr st'"
  shows "(state (goroutines st ! g) = Starting \<longrightarrow>
            (\<exists>t prev rest. ans = Some t \<and> readStat t = Inr (prev, rest) \<and>
               state (goroutines st' ! g) = Running prev \<and> cells st' ! g = cells st ! g)) \<and>
         (\<forall>prev. state (goroutines st ! g) = Running prev \<longrightarrow>
            (\<exists>t cur rest s. ans = Some t \<and> readStat t = Inr (cur, rest) \<and>
               stats now interval prev cur = Inr s \<and>
               state (goroutines st' ! g) = Running cur \<and> cells st' ! g = Some s))"
proof -
  have len: "length (cells st) = length (goroutines st)"
    and own: "lastSample (goroutines st ! g) = g"
    using assms(1,2) by (simp_all add: wf_def)
  show ?thesis
  proof (cases "state (goroutines st ! g)")
    case Starting
    then obtain prev where p: "monitor_start interval ans = Inr prev"
      and st': "st' = st\<lparr>goroutines := (goroutines st)[g := (goroutines st ! g)\<lparr>state := Running prev\<rparr>]\<rparr>"
      using assms(2,3) by (cases "monitor_start interval ans") (auto simp: step_def Let_def)
    from monitor_start_Inr [OF p] st' Starting assms(2) show ?thesis by auto
  next
    case (Running prev)
    then obtain out s cur where p: "monitor_tick interval now ans prev = Inr (out, s, cur)"
      and st': "st' = st\<lparr>stdout := stdout st @ [out],
                  cells := (cells st)[lastSample (goroutines st ! g) := Some s],
                  goroutines := (goroutines st)[g := (goroutines st ! g)\<lparr>state := Running cur\<rparr>]\<rparr>"
      using assms(2,3)
      by (cases "monitor_tick interval now ans prev") (auto simp: step_def Let_def)
    from monitor_tick_Inr [OF p] st' Running assms(2) len own show ?thesis by auto
  qed
qed

lemma step_other_state:
  assumes "wf st" and "step interval st ev = Inr st'" and "fst ev \<noteq> g"
    and "g < length (goroutines st)"
  shows "state (goroutines st' ! g) = state (goroutines st ! g)"
proof -
  obtain h now ans where ev: "ev = (h, now, ans)" by (cases ev)
  from step_cases [OF assms(2) [unfolded ev]] show ?thesis
    using assms(3) ev by auto
qed

lemma step_track:
  assumes "wf st" and "g < length (goroutines st)" and "track interval st g es"
    and "step interval st ev = Inr st'"
  shows "track interval st' g (es @ filter (\<lambda>ev. fst ev = g) [ev])"
proof (cases "fst ev = g")
  case False
  have "cells st' ! g = cells st ! g"
    using assms(1,4) False assms(2) by (rule step_other_goroutine)
  moreover have "state (goroutines st' ! g) = state (goroutines st ! g)"
    using assms(1,4) False assms(2) by (rule step_other_state)
  ultimately show ?thesis using assms(3) False by (simp add: track_def)
next
  case True
  then obtain now ans where ev: "ev = (g, now, ans)" by (cases ev) auto
  note own = step_own [OF assms(1,2) assms(4) [unfolded ev]]
  show ?thesis
  proof (cases "es = []")
    case Nil: True
    then have "state (goroutines st ! g) = Starting" "cells st ! g = None"
      using assms(3) by (simp_all add: track_def last_two_Nil)
    then show ?thesis using own Nil ev by (auto simp: track_def last_two_single)
  next
    case False
    then obtain t prev rest where l: "snd (snd (last es)) = Some t" "readStat t = Inr (prev, rest)"
      "state (goroutines st ! g) = Running prev"
      using assms(3) by (auto simp: track_def)
    then obtain t2 cur rest2 s where n: "ans = Some t2" "readStat t2 = Inr (cur, rest2)"
      "stats now interval prev cur = Inr s" "state (goroutines st' ! g) = Running cur"
      "cells st' ! g = Some s"
      using own by blast
    have "snapshot_of interval (last es) (g, now, ans) = Some s"
      using l n by (simp add: snapshot_of_def)
    then show ?thesis using False n ev by (simp add: track_def last_two_snoc)
  qed
qed

lemma run_track:
  "run interval st evs = Inr st' \<Longrightarrow> wf st \<Longrightarrow> g < length (goroutines st) \<Longrightarrow>
   track interval st g es \<Longrightarrow>
     track interval st' g (es @ filter (\<lambda>ev. fst ev = g) evs)"
proof (induction evs arbitrary: st es)
  case Nil
  then show ?case by simp
next
  case (Cons ev evs)
  from Cons.prems(1) obtain mid where s: "step interval st ev = Inr mid"
    and r: "run interval mid evs = Inr st'"
    by (cases "step interval st ev") auto
  have w: "wf mid" "length (goroutines mid) = length (goroutines st)"
    using step_wf [OF Cons.prems(2) s] by simp_all
  have t: "track interval mid g (es @ filter (\<lambda>ev. fst ev = g) [ev])"
    using Cons.prems(2,3,4) s by (rule step_track)
  have "g < length (goroutines mid)" using w(2) Cons.prems(3) by simp
  from Cons.IH [OF r w(1) this t] show ?case by (cases "fst ev = g") simp_all
qed

lemma process_published:
  assumes "process fl evs = Inr st" and "g < length (goroutines st)"
  shows "cells st ! g = published (sampleInterval (main_flags fl)) g evs"
proof -
  let ?i = "sampleInterval (main_flags fl)"
  have r: "run ?i (main fl) evs = Inr st" using assms(1) by (simp add: process_def)
  have g: "g < length (goroutines (main fl))" using process_wf(2) [OF assms(1)] assms(2) by simp
  have "phase (main fl) g 0" using main_wf [of fl] g by blast
  then have "track ?i (main fl) g []" by (simp add: track_def phase_def last_two_Nil)
  with r have "track ?i st g ([] @ filter (\<lambda>ev. fst ev = g) evs)"
    using main_wf [of fl] g by (intro run_track) simp_all
  then show ?thesis by (simp add: track_def published_def)
qed

text \<open>
  Claim C4. In every state the process reaches, for a device of \<^verbatim>\<open>lastSamples\<close> and
  the goroutine that owns the device's cell: while that goroutine has made fewer than two
  reads (none, or the baseline read only) the handler's map has no entry for the device;
  from its second read on the map has exactly one entry for it; that entry is the
  Snapshot the goroutine's latest round computed, from its last two reads, so each
  publish replaces the one before; and a step of any other goroutine leaves what the map
  holds for the device as it is.
\<close>

theorem no_snapshot_before_second_read:
  assumes "process fl evs = Inr st"
    and "(dev, a) \<in> set (lastSamples st)"
    and "g < length (goroutines st)" and "lastSample (goroutines st ! g) = a"
  shows "(reads g evs < 2 \<longrightarrow> dev \<notin> fst ` set (handler_map st)) \<and>
         (2 \<le> reads g evs \<longrightarrow> (\<exists>s. filter (\<lambda>e. fst e = dev) (handler_map st) = [(dev, s)])) \<and>
         filter (\<lambda>e. fst e = dev) (handler_map st) =
           (case published (sampleInterval (main_flags fl)) g evs of
              None \<Rightarrow> []
            | Some s \<Rightarrow> [(dev, s)]) \<and>
         (\<forall>ev st'. fst ev \<noteq> g \<longrightarrow> step (sampleInterval (main_flags fl)) st ev = Inr st' \<longrightarrow>
            filter (\<lambda>e. fst e = dev) (handler_map st') =
            filter (\<lambda>e. fst e = dev) (handler_map st))"
proof -
  have w: "wf st" using assms(1) by (rule process_wf)
  have "phase st g (reads g evs)" using assms(1,3) by (rule process_wf)
  then have p: "cells st ! g = None \<longleftrightarrow> reads g evs < 2" by (simp add: phase_def)
  have ag: "a = g" "g < length (cells st)" using w assms(3,4) by (simp_all add: wf_def)
  then have l: "Load (cells st) a = cells st ! g" by (simp add: Load_def)
  have k: "filter (\<lambda>e. fst e = dev) (handler_map st) =
           (case cells st ! g of None \<Rightarrow> [] | Some s \<Rightarrow> [(dev, s)])"
    using handler_map_key [OF _ assms(2)] w l by (simp add: wf_def)
  have pub: "cells st ! g = published (sampleInterval (main_flags fl)) g evs"
    using assms(1,3) by (rule process_published)
  have frame: "filter (\<lambda>e. fst e = dev) (handler_map st') =
               filter (\<lambda>e. fst e = dev) (handler_map st)"
    if "fst ev \<noteq> g" and s: "step (sampleInterval (main_flags fl)) st ev = Inr st'" for ev st'
  proof -
    have w': "wf st'" "lastSamples st' = lastSamples st"
      "length (goroutines st') = length (goroutines st)"
      using step_wf [OF w s] by simp_all
    have c: "cells st' ! g = cells st ! g"
      using w s that(1) assms(3) by (rule step_other_goroutine)
    have "g < length (cells st')" using w' assms(3) by (simp add: wf_def)
    then have l': "Load (cells st') a = cells st ! g" using ag c by (simp add: Load_def)
    have "(dev, a) \<in> set (lastSamples st')" using assms(2) w'(2) by simp
    from handler_map_key [OF _ this] w'(1) l' k show ?thesis by (simp add: wf_def)
  qed
  show ?thesis
  proof (intro conjI impI allI)
    assume "reads g evs < 2"
    then have "filter (\<lambda>e. fst e = dev) (handler_map st) = []" using k p by simp
    then show "dev \<notin> fst ` set (handler_map st)" by (auto simp: filter_empty_conv)
  next
    assume "2 \<le> reads g evs"
    then obtain s where "cells st ! g = Some s" using p by (cases "cells st ! g") auto
    then show "\<exists>s. filter (\<lambda>e. fst e = dev) (handler_map st) = [(dev, s)]" using k by simp
  next
    show "filter (\<lambda>e. fst e = dev) (handler_map st) =
           (case published (sampleInterval (main_flags fl)) g evs of
              None \<Rightarrow> []
            | Some s \<Rightarrow> [(dev, s)])"
      using k pub by simp
  next
    fix ev st'
    assume "fst ev \<noteq> g" "step (sampleInterval (main_flags fl)) st ev = Inr st'"
    then show "filter (\<lambda>e. fst e = dev) (handler_map st') =
               filter (\<lambda>e. fst e = dev) (handler_map st)"
      by (rule frame)
  qed
qed

lemma main_default:
  "main default_flags =
     \<lparr> lastSamples = [(runes ''sda'', 0)], cells = [None],
       goroutines =
         [\<lparr> statFile = runes ''/sys/block/sda/stat'', lastSample = 0, state = Starting \<rparr>],
       stdout = [] \<rparr>"
  by (simp add: main_def main_flags_def default_flags_def Let_def TrimSpace_def runes_def
      isSpace_def space_def)

lemma process_baseline: "process default_flags baseline_run = Inr after_baseline"
  by (simp add: process_def main_default sampleInterval_default baseline_run_def
      after_baseline_def step_def monitor_start_def readStat_previous_text Second_def)

lemma process_two_reads: "process default_flags two_reads = Inr after_two_reads"
  by (simp add: process_def main_default sampleInterval_default two_reads_def
      after_two_reads_def step_def monitor_start_def monitor_tick_def readStat_previous_text
      readStat_current_text stats_scenario_value)
    (simp add: Second_def previous_def current_def)

lemma readStat_third_text: "readStat third_text = Inr (third, [0x0a])"
  by (simp add: scan_eval third_text_def third_def)

lemma stats_third: "stats 30 Second current third = Inr ((scenario 30)\<lparr>InFlight := 7\<rparr>)"
  by (simp add: stats_def Second_def quo_def current_def third_def scenario_def)

lemma process_three_reads: "process default_flags three_reads = Inr after_three_reads"
  by (simp add: process_def main_default sampleInterval_default three_reads_def
      after_three_reads_def step_def monitor_start_def monitor_tick_def readStat_previous_text
      readStat_current_text readStat_third_text stats_scenario_value stats_third)
    (simp add: Second_def previous_def current_def third_def)

theorem no_snapshot_before_second_read_witness:
  "process default_flags baseline_run = Inr after_baseline \<and>
   reads 0 baseline_run = 1 \<and>
   handler_map after_baseline = [] \<and>
   runes ''sda'' \<notin> fst ` set (handler_map after_baseline) \<and>
   process default_flags two_reads = Inr after_two_reads \<and>
   reads 0 two_reads = 2 \<and>
   published (sampleInterval (main_flags default_flags)) 0 two_reads = Some (scenario 20) \<and>
   handler_map after_two_reads = [(runes ''sda'', scenario 20)] \<and>
   (\<exists>s. filter (\<lambda>e. fst e = runes ''sda'') (handler_map after_two_reads) = [(runes ''sda'', s)]) \<and>
   process default_flags three_reads = Inr after_three_reads \<and>
   reads 0 three_reads = 3 \<and>
   published (sampleInterval (main_flags default_flags)) 0 three_reads =
     Some ((scenario 30)\<lparr>InFlight := 7\<rparr>) \<and>
   filter (\<lambda>e. fst e = runes ''sda'') (handler_map after_three_reads) =
     [(runes ''sda'', (scenario 30)\<lparr>InFlight := 7\<rparr>)]"
proof -
  have a: "process default_flags baseline_run = Inr after_baseline" by (rule process_baseline)
  have b: "process default_flags two_reads = Inr after_two_reads" by (rule process_two_reads)
  have b3: "process default_flags three_reads = Inr after_three_reads"
    by (rule process_three_reads)
  have c: "reads 0 baseline_run = 1" "reads 0 two_reads = 2" "reads 0 three_reads = 3"
    by (simp_all add: reads_def baseline_run_def two_reads_def three_reads_def)
  have d: "(runes ''sda'', 0) \<in> set (lastSamples after_baseline)"
    "0 < length (goroutines after_baseline)" "lastSample (goroutines after_baseline ! 0) = 0"
    by (simp_all add: after_baseline_def)
  have e: "(runes ''sda'', 0) \<in> set (lastSamples after_two_reads)"
    "0 < length (goroutines after_two_reads)" "lastSample (goroutines after_two_reads ! 0) = 0"
    by (simp_all add: after_two_reads_def)
  have e3: "(runes ''sda'', 0) \<in> set (lastSamples after_three_reads)"
    "0 < length (goroutines after_three_reads)" "lastSample (goroutines after_three_reads ! 0) = 0"
    by (simp_all add: after_three_reads_def)
  have f: "handler_map after_baseline = []"
    "handler_map after_two_reads = [(runes ''sda'', scenario 20)]"
    by (simp_all add: handler_map_def after_baseline_def after_two_reads_def Load_def)
  have p: "published (sampleInterval (main_flags default_flags)) 0 two_reads = Some (scenario 20)"
    "published (sampleInterval (main_flags default_flags)) 0 three_reads =
       Some ((scenario 30)\<lparr>InFlight := 7\<rparr>)"
    by (simp_all add: published_def last_two_def snapshot_of_def two_reads_def three_reads_def
        sampleInterval_default readStat_previous_text readStat_current_text
        readStat_third_text stats_scenario_value stats_third)
  from no_snapshot_before_second_read [OF a d] no_snapshot_before_second_read [OF b e]
    no_snapshot_before_second_read [OF b3 e3] a b b3 c f p
  show ?thesis by simp
qed

text \<open>
  Claim C8. While no goroutine has made two reads (no device has completed a first
  sample cycle), the handler answers with the status 200, the header
  \<^verbatim>\<open>Content-Type: application/json\<close> and the body \<^verbatim>\<open>{}\<close>: every device is left out.
\<close>

theorem handler_before_first_cycle:
  assumes "process fl evs = Inr st"
    and "\<forall>g < length (goroutines st). reads g evs < 2"
  shows "statsHandlerAsJSON encKey encVal st =
           \<lparr> status = 200, header = [(''Content-Type'', ''application/json'')], body = ''{}'' \<rparr>"
proof -
  have w: "wf st" using assms(1) by (rule process_wf)
  have "Load (cells st) (snd e) = None" if "e \<in> set (lastSamples st)" for e
  proof -
    have g: "snd e < length (goroutines st)" using w that by (auto simp: wf_def)
    then have "phase st (snd e) (reads (snd e) evs)" using assms(1) by (intro process_wf)
    then have "cells st ! snd e = None" using assms(2) g by (simp add: phase_def)
    then show ?thesis using g w by (simp add: Load_def wf_def)
  qed
  then have "handler_map st = []"
    by (auto simp: handler_map_def List.map_filter_def filter_empty_conv)
  then show ?thesis
    by (simp add: statsHandlerAsJSON_def json_Marshal_def)
qed

theorem handler_before_first_cycle_witness:
  "process default_flags baseline_run = Inr after_baseline \<and>
   list_all (\<lambda>g. reads g baseline_run < 2) [0 ..< length (goroutines after_baseline)] \<and>
   statsHandlerAsJSON (\<lambda>k. map char_of k) (\<lambda>s. ''null'') after_baseline =
     \<lparr> status = 200, header = [(''Content-Type'', ''application/json'')], body = ''{}'' \<rparr>"
proof -
  have a: "process default_flags baseline_run = Inr after_baseline" by (rule process_baseline)
  have b: "\<forall>g < length (goroutines after_baseline). reads g baseline_run < 2"
    by (simp add: after_baseline_def reads_def baseline_run_def)
  have c: "list_all (\<lambda>g. reads g baseline_run < 2) [0 ..< length (goroutines after_baseline)]"
    by (simp add: after_baseline_def reads_def baseline_run_def)
  from handler_before_first_cycle [OF a b] a c show ?thesis by simp
qed

end
